theory Spec2Isabelle
  imports Main
begin

section \<open>ParallelGroupBuilder (src/common/group\_data.h)\<close>

text \<open>
  A shallow embedding of the class \<^verbatim>\<open>ParallelGroupBuilder<ValueType, SizeType, is_row_major>\<close>.
  \<^item> \<^verbatim>\<open>SizeType\<close> is the default \<^verbatim>\<open>bst_ulong\<close> and \<^verbatim>\<open>size_t\<close> is 64 bits wide: both are
    natural numbers with the wrap-around modulo \<open>2 ^ 64\<close> written out at every
    addition, subtraction and multiplication of the source.
  \<^item> The template flag \<^verbatim>\<open>is_row_major\<close> is the first argument \<open>rm\<close> of every operation
    (\<open>True\<close>: partitioned mode, \<open>False\<close>: shared mode).
  \<^item> The object is a record; the two caller-owned vectors it holds by reference are
    fields of the record, so a second builder is constructed from the \<open>rptr\<close> and
    \<open>data\<close> fields the first one left behind.
  \<^item> An access outside a vector (undefined behaviour in the source) is the value
    \<open>None\<close>.
  \<^item> Concurrent calls of \<^verbatim>\<open>AddBudget\<close>, and of \<^verbatim>\<open>Push\<close>, are a list of calls in the order
    of some interleaving; a call only touches the buffer of its own thread (and, for
    \<^verbatim>\<open>Push\<close>, one slot of the data vector).
\<close>

subsection \<open>64-bit unsigned arithmetic\<close>

definition sz_add :: "nat \<Rightarrow> nat \<Rightarrow> nat" where
  "sz_add a b = (a + b) mod 2 ^ 64"

definition sz_sub :: "nat \<Rightarrow> nat \<Rightarrow> nat" where
  "sz_sub a b = (a + (2 ^ 64 - b mod 2 ^ 64)) mod 2 ^ 64"

definition sz_mul :: "nat \<Rightarrow> nat \<Rightarrow> nat" where
  "sz_mul a b = (a * b) mod 2 ^ 64"

subsection \<open>Vectors\<close>

text \<open>\<^verbatim>\<open>std::vector::resize(n, v)\<close>: truncate, or append copies of \<open>v\<close>.\<close>

definition resize :: "'a list \<Rightarrow> nat \<Rightarrow> 'a \<Rightarrow> 'a list" where
  "resize xs n v = take n xs @ replicate (n - length xs) v"

subsection \<open>The builder\<close>

record 'v builder =
  rptr :: "nat list"
  data :: "'v list"
  thread_rptr :: "nat list list"
  base_row_offset :: nat
  thread_displacement :: nat

text \<open>
  The constructor binds the two vectors and the base offset. The source leaves
  \<^verbatim>\<open>thread_displacement_\<close> uninitialised; \<^verbatim>\<open>InitBudget\<close> writes it before anything
  reads it, and the model starts it at 0.
\<close>

definition ParallelGroupBuilder :: "nat list \<Rightarrow> 'v list \<Rightarrow> nat \<Rightarrow> 'v builder" where
  "ParallelGroupBuilder p_rptr p_data base =
     \<lparr>rptr = p_rptr, data = p_data, thread_rptr = [],
      base_row_offset = base, thread_displacement = 0\<rparr>"

subsubsection \<open>Step 1: InitBudget\<close>

definition full_size :: "bool \<Rightarrow> nat \<Rightarrow> nat \<Rightarrow> nat" where
  "full_size rm max_key base =
     (if rm then max_key else sz_sub max_key (min base max_key))"

definition last_thread_size :: "bool \<Rightarrow> nat \<Rightarrow> nat \<Rightarrow> nat \<Rightarrow> nat" where
  "last_thread_size rm fs nthread disp =
     (if rm then sz_sub fs (sz_mul (nthread - 1) disp) else fs)"

text \<open>
  \<open>nthread\<close> is an \<^verbatim>\<open>int\<close> in the source and at least 1 by contract; with
  \<open>nthread = 0\<close> the source divides by zero or indexes an empty vector.
\<close>

definition InitBudget :: "bool \<Rightarrow> nat \<Rightarrow> nat \<Rightarrow> 'v builder \<Rightarrow> 'v builder option" where
  "InitBudget rm max_key nthread b =
     (if nthread = 0 then None
      else
        let trs0 = resize (thread_rptr b) nthread [];
            fs = full_size rm max_key (base_row_offset b);
            disp = (if rm then fs div nthread else 0);
            thread_size = (if rm then disp else fs);
            trs1 = fold (\<lambda>i trs. trs[i := resize (trs ! i) thread_size 0])
                     [0 ..< length trs0 - 1] trs0;
            trs2 = trs1[nthread - 1 :=
                     resize (trs1 ! (nthread - 1)) (last_thread_size rm fs nthread disp) 0]
        in Some (b\<lparr>thread_rptr := trs2, thread_displacement := disp\<rparr>))"

subsubsection \<open>Step 2: AddBudget\<close>

text \<open>The index translation shared by \<^verbatim>\<open>AddBudget\<close> and \<^verbatim>\<open>Push\<close>.\<close>

definition offset_key :: "bool \<Rightarrow> 'v builder \<Rightarrow> nat \<Rightarrow> nat \<Rightarrow> nat" where
  "offset_key rm b key threadid =
     (if rm then sz_sub (sz_sub key (base_row_offset b))
                        (sz_mul threadid (thread_displacement b))
      else sz_sub key (base_row_offset b))"

definition AddBudget :: "bool \<Rightarrow> nat \<Rightarrow> nat \<Rightarrow> nat \<Rightarrow> 'v builder \<Rightarrow> 'v builder option" where
  "AddBudget rm key threadid nelem b =
     (if length (thread_rptr b) \<le> threadid then None
      else
        let trptr = thread_rptr b ! threadid;
            ok = offset_key rm b key threadid;
            trptr1 = (if length trptr < sz_add ok 1 then resize trptr (sz_add ok 1) 0
                      else trptr)
        in if length trptr1 \<le> ok then None
           else Some (b\<lparr>thread_rptr :=
                  (thread_rptr b)[threadid := trptr1[ok := sz_add (trptr1 ! ok) nelem]]\<rparr>))"

subsubsection \<open>Step 3: InitStorage\<close>

definition rptr_fill_value :: "nat list \<Rightarrow> nat" where
  "rptr_fill_value rp = (if rp = [] then 0 else last rp)"

text \<open>Partitioned mode: the body of the inner loop, for cell \<open>i\<close> of the current thread.\<close>

definition rm_cell_step ::
  "nat \<Rightarrow> nat \<Rightarrow> nat list \<times> nat \<times> nat \<times> nat list \<Rightarrow> nat list \<times> nat \<times> nat \<times> nat list" where
  "rm_cell_step fill i = (\<lambda>(trptr, count, offset_idx, rp).
     let thread_count = trptr ! i;
         trptr1 = trptr[i := sz_add count fill];
         count1 = sz_add count thread_count
     in if offset_idx < length rp
        then (trptr1, count1, sz_add offset_idx 1,
              rp[offset_idx := sz_add (rp ! offset_idx) count1])
        else (trptr1, count1, offset_idx, rp))"

definition rm_thread_step ::
  "nat \<Rightarrow> nat \<Rightarrow> nat list list \<times> nat \<times> nat \<times> nat list
     \<Rightarrow> nat list list \<times> nat \<times> nat \<times> nat list" where
  "rm_thread_step fill tid = (\<lambda>(trs, count, offset_idx, rp).
     case fold (rm_cell_step fill) [0 ..< length (trs ! tid)]
            (trs ! tid, count, offset_idx, rp)
     of (trptr1, count1, offset_idx1, rp1) \<Rightarrow>
          (trs[tid := trptr1], count1, offset_idx1, rp1))"

text \<open>Shared mode: the body of the inner loop, for thread \<open>tid\<close> at row \<open>i\<close>.\<close>

definition sh_thread_step ::
  "nat \<Rightarrow> nat \<Rightarrow> nat \<Rightarrow> nat \<Rightarrow> nat list list \<times> nat \<Rightarrow> nat list list \<times> nat" where
  "sh_thread_step base back i tid = (\<lambda>(trs, count).
     let trptr = trs ! tid
     in if i < sz_add (length trptr) base
        then let thread_count = trptr ! (i - base)
             in (trs[tid := trptr[i - base := sz_add count back]],
                 sz_add count thread_count)
        else (trs, count))"

definition sh_key_step ::
  "nat \<Rightarrow> nat \<Rightarrow> nat list list \<times> nat \<times> nat list \<Rightarrow> nat list list \<times> nat \<times> nat list" where
  "sh_key_step base i = (\<lambda>(trs, count, rp).
     case fold (sh_thread_step base (last rp) i) [0 ..< length trs] (trs, count)
     of (trs1, count1) \<Rightarrow>
          (trs1, count1, rp[i + 1 := sz_add (rp ! (i + 1)) count1]))"

definition sh_resize_rptr :: "nat \<Rightarrow> nat \<Rightarrow> nat list list \<Rightarrow> nat list \<Rightarrow> nat list" where
  "sh_resize_rptr base fill trs rp0 =
     fold (\<lambda>trptr rp.
             if length rp \<le> sz_add (length trptr) base
             then resize rp (sz_add (sz_add (length trptr) base) 1) fill
             else rp)
          trs rp0"

text \<open>
  \<open>dv\<close> is the value-initialised \<^verbatim>\<open>ValueType()\<close> that \<^verbatim>\<open>data_.resize\<close> appends.
  \<^verbatim>\<open>rptr_.back()\<close> on an empty vector is the value \<open>None\<close>.
\<close>

definition InitStorage :: "bool \<Rightarrow> 'v \<Rightarrow> 'v builder \<Rightarrow> 'v builder option" where
  "InitStorage rm dv b =
     (let trs = thread_rptr b;
          base = base_row_offset b;
          fill = rptr_fill_value (rptr b)
      in if rm then
           let expected_rows = fold (\<lambda>trptr acc. sz_add acc (length trptr)) trs 0;
               rp1 = resize (rptr b) (sz_add (sz_add expected_rows base) 1) fill
           in case fold (rm_thread_step fill) [0 ..< length trs] (trs, 0, sz_add base 1, rp1)
              of (trs2, count, offset_idx, rp2) \<Rightarrow>
                   if rp2 = [] then None
                   else Some (b\<lparr>rptr := rp2, thread_rptr := trs2,
                                data := resize (data b) (last rp2) dv\<rparr>)
         else
           let rp1 = sh_resize_rptr base fill trs (rptr b)
           in case fold (sh_key_step base) [base ..< length rp1 - 1] (trs, 0, rp1)
              of (trs2, count, rp2) \<Rightarrow>
                   if rp2 = [] then None
                   else Some (b\<lparr>rptr := rp2, thread_rptr := trs2,
                                data := resize (data b) (last rp2) dv\<rparr>))"

subsubsection \<open>Step 4: Push\<close>

definition Push :: "bool \<Rightarrow> nat \<Rightarrow> 'v \<Rightarrow> nat \<Rightarrow> 'v builder \<Rightarrow> 'v builder option" where
  "Push rm key v threadid b =
     (if length (thread_rptr b) \<le> threadid then None
      else
        let trptr = thread_rptr b ! threadid;
            ok = offset_key rm b key threadid
        in if length trptr \<le> ok then None
           else
             let rp = trptr ! ok
             in if length (data b) \<le> rp then None
                else Some (b\<lparr>data := (data b)[rp := v],
                              thread_rptr := (thread_rptr b)[threadid := trptr[ok := sz_add rp 1]]\<rparr>))"

subsection \<open>The four-phase protocol\<close>

text \<open>
  A budget call is \<open>(key, threadid, nelem)\<close>, a push call \<open>(key, threadid, value)\<close>.
\<close>

fun add_budgets :: "bool \<Rightarrow> (nat \<times> nat \<times> nat) list \<Rightarrow> 'v builder \<Rightarrow> 'v builder option" where
  "add_budgets rm [] b = Some b"
| "add_budgets rm ((key, tid, nelem) # cs) b =
     (case AddBudget rm key tid nelem b of None \<Rightarrow> None | Some b1 \<Rightarrow> add_budgets rm cs b1)"

fun pushes :: "bool \<Rightarrow> (nat \<times> nat \<times> 'v) list \<Rightarrow> 'v builder \<Rightarrow> 'v builder option" where
  "pushes rm [] b = Some b"
| "pushes rm ((key, tid, v) # ps) b =
     (case Push rm key v tid b of None \<Rightarrow> None | Some b1 \<Rightarrow> pushes rm ps b1)"

definition budget_phase ::
  "bool \<Rightarrow> nat list \<Rightarrow> 'v list \<Rightarrow> nat \<Rightarrow> nat \<Rightarrow> nat \<Rightarrow> (nat \<times> nat \<times> nat) list
     \<Rightarrow> 'v builder option" where
  "budget_phase rm p_rptr p_data base max_key nthread cs =
     Option.bind (InitBudget rm max_key nthread (ParallelGroupBuilder p_rptr p_data base))
       (add_budgets rm cs)"

definition build ::
  "bool \<Rightarrow> 'v \<Rightarrow> nat list \<Rightarrow> 'v list \<Rightarrow> nat \<Rightarrow> nat \<Rightarrow> nat \<Rightarrow> (nat \<times> nat \<times> nat) list
     \<Rightarrow> (nat \<times> nat \<times> 'v) list \<Rightarrow> 'v builder option" where
  "build rm dv p_rptr p_data base max_key nthread cs ps =
     Option.bind
       (Option.bind (budget_phase rm p_rptr p_data base max_key nthread cs) (InitStorage rm dv))
       (pushes rm ps)"

text \<open>
  The data slots written by a list of \<^verbatim>\<open>Push\<close> calls, in the order of the calls: each
  call writes the slot its cursor cell holds when the call is made.
\<close>

fun push_slots :: "bool \<Rightarrow> (nat \<times> nat \<times> 'v) list \<Rightarrow> 'v builder \<Rightarrow> nat list" where
  "push_slots rm [] b = []"
| "push_slots rm ((key, tid, v) # ps) b =
     (case Push rm key v tid b of
        None \<Rightarrow> []
      | Some b1 \<Rightarrow> thread_rptr b ! tid ! offset_key rm b key tid # push_slots rm ps b1)"


section \<open>Closed forms of the merge\<close>

text \<open>
  The definitions of this section describe what \<^verbatim>\<open>InitStorage\<close> computes; the lemmas
  below prove that the loops of the model compute exactly these values.
\<close>

definition wrap :: "nat \<Rightarrow> nat" where
  "wrap x = x mod 2 ^ 64"

text \<open>The count of thread \<open>t\<close> for row \<open>j\<close>; a thread whose buffer has no cell \<open>j\<close> counts 0.\<close>

definition cnt :: "nat list list \<Rightarrow> nat \<Rightarrow> nat \<Rightarrow> nat" where
  "cnt trs j t = (if j < length (trs ! t) then trs ! t ! j else 0)"

definition rowsum :: "nat list list \<Rightarrow> nat \<Rightarrow> nat" where
  "rowsum trs j = (\<Sum>t<length trs. cnt trs j t)"

text \<open>
  Shared mode visits the cells row by row and, within a row, thread by thread:
  \<open>sh_before trs j t\<close> is the sum of the counts visited before cell \<open>j\<close> of thread \<open>t\<close>.
\<close>

definition sh_before :: "nat list list \<Rightarrow> nat \<Rightarrow> nat \<Rightarrow> nat" where
  "sh_before trs j t = (\<Sum>j'<j. rowsum trs j') + (\<Sum>t'<t. cnt trs j t')"

text \<open>The buffers once every row below \<open>j\<close>, and row \<open>j\<close> of the threads below \<open>m\<close>, are cursors.\<close>

definition sh_part :: "nat \<Rightarrow> nat \<Rightarrow> nat \<Rightarrow> nat list list \<Rightarrow> nat list list" where
  "sh_part back j m trs =
     map (\<lambda>t. map (\<lambda>j'. if j' < j \<or> (j' = j \<and> t < m)
                         then wrap (back + sh_before trs j' t) else trs ! t ! j')
                [0 ..< length (trs ! t)])
         [0 ..< length trs]"

text \<open>The offset array once the rows below \<open>J\<close> have been added to it.\<close>

definition sh_offs :: "nat \<Rightarrow> nat \<Rightarrow> nat list list \<Rightarrow> nat list \<Rightarrow> nat list" where
  "sh_offs base J trs rp =
     map (\<lambda>idx. if base < idx \<and> idx \<le> base + J
                 then wrap (rp ! idx + sh_before trs (idx - base) 0) else rp ! idx)
         [0 ..< length rp]"

text \<open>
  Partitioned mode visits the cells thread by thread and, within a thread, in index
  order: this is the order of the concatenated buffers.
\<close>

definition rm_before :: "nat list list \<Rightarrow> nat \<Rightarrow> nat \<Rightarrow> nat" where
  "rm_before trs t j = sum_list (concat (take t trs)) + sum_list (take j (trs ! t))"

definition rm_cells :: "nat \<Rightarrow> nat list list \<Rightarrow> nat list list" where
  "rm_cells fill trs =
     map (\<lambda>t. map (\<lambda>j. wrap (fill + rm_before trs t j)) [0 ..< length (trs ! t)])
         [0 ..< length trs]"

definition rm_offs :: "nat \<Rightarrow> nat \<Rightarrow> nat list \<Rightarrow> nat list \<Rightarrow> nat list" where
  "rm_offs start P cs rp =
     map (\<lambda>idx. if start \<le> idx \<and> idx < start + P
                 then wrap (rp ! idx + sum_list (take (idx - start + 1) cs)) else rp ! idx)
         [0 ..< length rp]"

text \<open>The length of the offset array after the resizing loop of shared mode.\<close>

definition sh_rptr_len :: "nat \<Rightarrow> nat list list \<Rightarrow> nat \<Rightarrow> nat" where
  "sh_rptr_len base trs l = fold (\<lambda>trptr l. max l (length trptr + base + 1)) trs l"

definition sh_rp1 :: "'v builder \<Rightarrow> nat list" where
  "sh_rp1 b =
     rptr b @ replicate (sh_rptr_len (base_row_offset b) (thread_rptr b) (length (rptr b))
                           - length (rptr b))
                (rptr_fill_value (rptr b))"

definition sh_rows :: "'v builder \<Rightarrow> nat" where
  "sh_rows b = length (sh_rp1 b) - 1 - base_row_offset b"

text \<open>
  Partitioned mode, one thread: the buffer once its cells below \<open>m\<close> are cursors
  (\<open>c\<close> is the sum of the counts of the threads before), and all buffers once the
  threads below \<open>t\<close> are done.
\<close>

definition rm_buf :: "nat \<Rightarrow> nat \<Rightarrow> nat \<Rightarrow> nat list \<Rightarrow> nat list" where
  "rm_buf fill c m buf =
     map (\<lambda>j. if j < m then wrap (fill + c + sum_list (take j buf)) else buf ! j)
         [0 ..< length buf]"

definition rm_tpart :: "nat \<Rightarrow> nat \<Rightarrow> nat list list \<Rightarrow> nat list list" where
  "rm_tpart fill t trs =
     map (\<lambda>t'. if t' < t
                then map (\<lambda>j. wrap (fill + rm_before trs t' j)) [0 ..< length (trs ! t')]
                else trs ! t')
         [0 ..< length trs]"

definition rm_rp1 :: "'v builder \<Rightarrow> nat list" where
  "rm_rp1 b =
     resize (rptr b) (length (concat (thread_rptr b)) + base_row_offset b + 1)
       (rptr_fill_value (rptr b))"

section \<open>Valid calls\<close>

text \<open>
  In partitioned mode thread \<open>t\<close> owns the rows (keys relative to the base offset) of its
  slice: \<open>displacement\<close> rows from \<open>t * displacement\<close> on, and the last thread all rows
  from \<open>(nthread - 1) * displacement\<close> up to \<open>max_key\<close>.
\<close>

definition owns :: "nat \<Rightarrow> nat \<Rightarrow> nat \<Rightarrow> nat \<Rightarrow> bool" where
  "owns max_key nthread t r \<longleftrightarrow>
     t < nthread \<and> t * (max_key div nthread) \<le> r \<and>
     r < (if t = nthread - 1 then max_key else (t + 1) * (max_key div nthread))"

text \<open>
  A call of \<^verbatim>\<open>AddBudget\<close> or \<^verbatim>\<open>Push\<close> with this key and thread id is valid for a build:
  the thread exists and the key is one of this build, in partitioned mode a key of the
  thread's slice.
\<close>

definition valid_call :: "bool \<Rightarrow> nat \<Rightarrow> nat \<Rightarrow> nat \<Rightarrow> nat \<Rightarrow> nat \<Rightarrow> bool" where
  "valid_call rm base max_key nthread key tid \<longleftrightarrow>
     (if rm then base \<le> key \<and> owns max_key nthread tid (key - base)
      else tid < nthread \<and> base \<le> key \<and> key < max_key)"

definition local_index :: "bool \<Rightarrow> nat \<Rightarrow> nat \<Rightarrow> nat \<Rightarrow> nat \<Rightarrow> nat \<Rightarrow> nat" where
  "local_index rm base max_key nthread key tid =
     (if rm then key - base - tid * (max_key div nthread) else key - base)"

text \<open>The buffers \<^verbatim>\<open>InitBudget\<close> allocates on a new builder.\<close>

definition buf_len :: "bool \<Rightarrow> nat \<Rightarrow> nat \<Rightarrow> nat \<Rightarrow> nat \<Rightarrow> nat" where
  "buf_len rm base max_key nthread t =
     (if rm then (if t = nthread - 1 then max_key - (nthread - 1) * (max_key div nthread)
                  else max_key div nthread)
      else max_key - base)"

definition init_bufs :: "bool \<Rightarrow> nat \<Rightarrow> nat \<Rightarrow> nat \<Rightarrow> nat list list" where
  "init_bufs rm base max_key nthread =
     map (\<lambda>t. replicate (buf_len rm base max_key nthread t) 0) [0 ..< nthread]"

text \<open>The budget, and the values pushed, for one cell of one thread's buffer.\<close>

definition budget_of :: "bool \<Rightarrow> 'v builder \<Rightarrow> (nat \<times> nat \<times> nat) list \<Rightarrow> nat \<Rightarrow> nat \<Rightarrow> nat" where
  "budget_of rm b cs t j =
     sum_list (map (\<lambda>(k, t', n). n)
       (filter (\<lambda>(k, t', n). t' = t \<and> offset_key rm b k t' = j) cs))"

definition cell_vals :: "bool \<Rightarrow> 'v builder \<Rightarrow> (nat \<times> nat \<times> 'v) list \<Rightarrow> nat \<Rightarrow> nat \<Rightarrow> 'v list" where
  "cell_vals rm b ps t j =
     map (\<lambda>(k, t', v). v)
       (filter (\<lambda>(k, t', v). t' = t \<and> offset_key rm b k t' = j) ps)"

text \<open>Every call addresses an existing cell of an existing buffer.\<close>

definition in_cells :: "bool \<Rightarrow> 'v builder \<Rightarrow> (nat \<times> nat \<times> 'a) list \<Rightarrow> bool" where
  "in_cells rm b cs \<longleftrightarrow>
     (\<forall>(k, t, x) \<in> set cs. t < length (thread_rptr b) \<and>
                             offset_key rm b k t < length (thread_rptr b ! t))"

text \<open>The buffers after a list of budget calls.\<close>

definition budgeted :: "bool \<Rightarrow> 'v builder \<Rightarrow> (nat \<times> nat \<times> nat) list \<Rightarrow> nat list list" where
  "budgeted rm b cs =
     map (\<lambda>t. map (\<lambda>j. wrap (thread_rptr b ! t ! j + budget_of rm b cs t j))
                [0 ..< length (thread_rptr b ! t)])
         [0 ..< length (thread_rptr b)]"

definition cells_small :: "nat list list \<Rightarrow> bool" where
  "cells_small trs \<longleftrightarrow> (\<forall>t<length trs. \<forall>j<length (trs ! t). trs ! t ! j < 2 ^ 64)"

text \<open>The builder after \<^verbatim>\<open>InitBudget\<close> on a new builder.\<close>

definition budget_start ::
  "bool \<Rightarrow> nat list \<Rightarrow> 'v list \<Rightarrow> nat \<Rightarrow> nat \<Rightarrow> nat \<Rightarrow> 'v builder" where
  "budget_start rm p_rptr p_data base max_key nthread =
     \<lparr>rptr = p_rptr, data = p_data,
      thread_rptr = init_bufs rm base max_key nthread,
      base_row_offset = base,
      thread_displacement = (if rm then max_key div nthread else 0)\<rparr>"

text \<open>Padding every buffer with zeros to the length of the longest one.\<close>

definition longest :: "nat list list \<Rightarrow> nat" where
  "longest trs = fold (\<lambda>tr m. max m (length tr)) trs 0"

definition zero_pad :: "nat list list \<Rightarrow> nat list list" where
  "zero_pad trs = map (\<lambda>tr. resize tr (longest trs) 0) trs"

text \<open>The number of elements budgeted for the first \<open>k\<close> rows of a build.\<close>

definition prefix_total :: "bool \<Rightarrow> nat list list \<Rightarrow> nat \<Rightarrow> nat" where
  "prefix_total rm trs k = (if rm then sum_list (take k (concat trs)) else sh_before trs k 0)"

text \<open>The number of rows \<^verbatim>\<open>InitStorage\<close> adds to the offset array.\<close>

definition new_rows :: "bool \<Rightarrow> 'v builder \<Rightarrow> nat" where
  "new_rows rm b = (if rm then length (concat (thread_rptr b)) else sh_rows b)"

text \<open>
  The sum of the budgets of the cells \<^verbatim>\<open>InitStorage\<close> visits before cell \<open>j\<close> of thread
  \<open>t\<close>, in the visiting order of the mode.
\<close>

definition before :: "bool \<Rightarrow> nat list list \<Rightarrow> nat \<Rightarrow> nat \<Rightarrow> nat" where
  "before rm trs t j = (if rm then rm_before trs t j else sh_before trs j t)"

section \<open>The push phase\<close>

text \<open>
  Cursors \<open>c0\<close> and budgets \<open>bud\<close> of the same shape reserve, for every cell, the
  region \<open>[c0 ! t ! j, c0 ! t ! j + bud ! t ! j)\<close>: the regions lie below \<open>L\<close> and the
  regions of two different cells do not overlap.
\<close>

definition regions_ok :: "nat list list \<Rightarrow> nat list list \<Rightarrow> nat \<Rightarrow> bool" where
  "regions_ok c0 bud L \<longleftrightarrow>
     length bud = length c0 \<and>
     (\<forall>t<length c0. length (bud ! t) = length (c0 ! t)) \<and>
     (\<forall>t<length c0. \<forall>j<length (c0 ! t). c0 ! t ! j + bud ! t ! j \<le> L) \<and>
     (\<forall>t<length c0. \<forall>j<length (c0 ! t). \<forall>t'<length c0. \<forall>j'<length (c0 ! t').
        (t, j) \<noteq> (t', j') \<longrightarrow>
        c0 ! t ! j + bud ! t ! j \<le> c0 ! t' ! j' \<or> c0 ! t' ! j' + bud ! t' ! j' \<le> c0 ! t ! j)"

text \<open>No cell receives more pushes than its budget.\<close>

definition within_budget ::
  "bool \<Rightarrow> 'v builder \<Rightarrow> (nat \<times> nat \<times> 'v) list \<Rightarrow> nat list list \<Rightarrow> bool" where
  "within_budget rm b ps bud \<longleftrightarrow>
     (\<forall>t<length (thread_rptr b). \<forall>j<length (thread_rptr b ! t).
        length (cell_vals rm b ps t j) \<le> bud ! t ! j)"

text \<open>
  The data vector \<open>D\<close> and the cursors \<open>C\<close> after the pushes \<open>ps\<close>, started from the
  builder \<open>b\<close>: every cursor has advanced by the number of pushes to its cell, the
  values of a cell lie from its first cursor on in push order, and every other slot
  is untouched.
\<close>

definition pushed ::
  "bool \<Rightarrow> 'v builder \<Rightarrow> (nat \<times> nat \<times> 'v) list \<Rightarrow> 'v list \<Rightarrow> nat list list \<Rightarrow> bool" where
  "pushed rm b ps D C \<longleftrightarrow>
     length D = length (data b) \<and>
     length C = length (thread_rptr b) \<and>
     (\<forall>t<length (thread_rptr b). length (C ! t) = length (thread_rptr b ! t)) \<and>
     (\<forall>t<length (thread_rptr b). \<forall>j<length (thread_rptr b ! t).
        C ! t ! j = thread_rptr b ! t ! j + length (cell_vals rm b ps t j) \<and>
        (\<forall>i<length (cell_vals rm b ps t j).
           D ! (thread_rptr b ! t ! j + i) = cell_vals rm b ps t j ! i)) \<and>
     (\<forall>p. (\<forall>t<length (thread_rptr b). \<forall>j<length (thread_rptr b ! t).
              p < thread_rptr b ! t ! j
              \<or> thread_rptr b ! t ! j + length (cell_vals rm b ps t j) \<le> p)
          \<longrightarrow> D ! p = data b ! p)"

text \<open>The slots the pushes \<open>ps\<close> write, started from the builder \<open>b\<close>.\<close>

definition written :: "bool \<Rightarrow> 'v builder \<Rightarrow> (nat \<times> nat \<times> 'v) list \<Rightarrow> nat set" where
  "written rm b ps =
     {p. \<exists>t<length (thread_rptr b). \<exists>j<length (thread_rptr b ! t).
           \<exists>i<length (cell_vals rm b ps t j). p = thread_rptr b ! t ! j + i}"

text \<open>
  The cell of thread \<open>tid\<close> for a key: the budget of the pair before \<^verbatim>\<open>InitStorage\<close>, its
  cursor afterwards.
\<close>

definition has_cell :: "bool \<Rightarrow> 'v builder \<Rightarrow> nat \<Rightarrow> nat \<Rightarrow> bool" where
  "has_cell rm b key tid \<longleftrightarrow>
     tid < length (thread_rptr b) \<and> offset_key rm b key tid < length (thread_rptr b ! tid)"

definition cell_value :: "bool \<Rightarrow> 'v builder \<Rightarrow> nat \<Rightarrow> nat \<Rightarrow> nat" where
  "cell_value rm b key tid = thread_rptr b ! tid ! offset_key rm b key tid"

text \<open>
  A compliant push sequence for the budgets of builder \<open>b\<close>: every push addresses an
  existing cell, and every cell receives exactly as many pushes as its budget.
\<close>

definition compliant :: "bool \<Rightarrow> 'v builder \<Rightarrow> (nat \<times> nat \<times> 'v) list \<Rightarrow> bool" where
  "compliant rm b ps \<longleftrightarrow>
     in_cells rm b ps \<and>
     (\<forall>t<length (thread_rptr b). \<forall>j<length (thread_rptr b ! t).
        length (cell_vals rm b ps t j) = thread_rptr b ! t ! j)"

text \<open>
  The sizes \<^verbatim>\<open>InitStorage\<close> computes fit the 64-bit \<^verbatim>\<open>size_t\<close>: the length of the resized
  offset array, which partitioned mode computes from the sum of all buffer lengths and
  shared mode from each buffer's length.
\<close>

definition sizes_fit :: "bool \<Rightarrow> 'v builder \<Rightarrow> bool" where
  "sizes_fit rm b \<longleftrightarrow>
     (if rm then length (concat (thread_rptr b)) + base_row_offset b + 1 < 2 ^ 64
      else (\<forall>tr \<in> set (thread_rptr b). length tr + base_row_offset b + 1 < 2 ^ 64))"

section \<open>Records and budgets by key\<close>

text \<open>The key whose cell is cell \<open>j\<close> of thread \<open>t\<close>.\<close>

definition key_of :: "bool \<Rightarrow> nat \<Rightarrow> nat \<Rightarrow> nat \<Rightarrow> nat \<Rightarrow> nat \<Rightarrow> nat" where
  "key_of rm base max_key nthread t j =
     base + (if rm then t * (max_key div nthread) else 0) + j"

text \<open>
  For each pair (key, thread) the number of \<^verbatim>\<open>Push\<close> calls equals the sum of the
  increments of the \<^verbatim>\<open>AddBudget\<close> calls.
\<close>

definition matches_budget :: "(nat \<times> nat \<times> nat) list \<Rightarrow> (nat \<times> nat \<times> 'v) list \<Rightarrow> bool" where
  "matches_budget cs ps \<longleftrightarrow>
     (\<forall>k t. length (filter (\<lambda>(k', t', v). k' = k \<and> t' = t) ps)
            = sum_list (map (\<lambda>(k', t', n). n) (filter (\<lambda>(k', t', n). k' = k \<and> t' = t) cs)))"

definition all_valid :: "bool \<Rightarrow> nat \<Rightarrow> nat \<Rightarrow> nat \<Rightarrow> (nat \<times> nat \<times> 'a) list \<Rightarrow> bool" where
  "all_valid rm base max_key nthread xs \<longleftrightarrow>
     (\<forall>(k, t, x) \<in> set xs. valid_call rm base max_key nthread k t)"

section \<open>The groups of a build\<close>

text \<open>The values pushed for key \<open>k\<close> by thread \<open>t\<close>, in push order.\<close>

definition pushed_by :: "(nat \<times> nat \<times> 'v) list \<Rightarrow> nat \<Rightarrow> nat \<Rightarrow> 'v list" where
  "pushed_by ps k t = map (\<lambda>(k', t', v). v) (filter (\<lambda>(k', t', v). k' = k \<and> t' = t) ps)"

text \<open>
  The group of key \<open>k\<close>: in shared mode the values of the threads in ascending thread
  order, each thread's values in its push order; in partitioned mode the values
  pushed for the key, in push order (they all come from the thread that owns the key).
\<close>

definition group_of :: "bool \<Rightarrow> nat \<Rightarrow> (nat \<times> nat \<times> 'v) list \<Rightarrow> nat \<Rightarrow> 'v list" where
  "group_of rm nthread ps k =
     (if rm then map (\<lambda>(k', t', v). v) (filter (\<lambda>(k', t', v). k' = k) ps)
      else concat (map (pushed_by ps k) [0 ..< nthread]))"

text \<open>The number of rows (keys) of a build, and the thread that owns a row in partitioned mode.\<close>

definition rows :: "bool \<Rightarrow> nat \<Rightarrow> nat \<Rightarrow> nat" where
  "rows rm base max_key = (if rm then max_key else max_key - base)"

definition owner :: "nat \<Rightarrow> nat \<Rightarrow> nat \<Rightarrow> nat" where
  "owner max_key nthread r =
     (if max_key div nthread = 0 then nthread - 1
      else min (r div (max_key div nthread)) (nthread - 1))"

text \<open>The number of values in the groups of the first \<open>r\<close> keys of a build.\<close>

definition groups_total :: "bool \<Rightarrow> nat \<Rightarrow> (nat \<times> nat \<times> 'v) list \<Rightarrow> nat \<Rightarrow> nat \<Rightarrow> nat" where
  "groups_total rm nthread ps base r = (\<Sum>k<r. length (group_of rm nthread ps (base + k)))"

text \<open>
  The records of a list of push calls: the pairs (key, value) in push order, without
  the thread ids. Two runs that push the same records may assign them to different
  threads.
\<close>

definition records :: "(nat \<times> nat \<times> 'v) list \<Rightarrow> (nat \<times> 'v) list" where
  "records ps = map (\<lambda>(k, t, v). (k, v)) ps"


section \<open>Evaluation on concrete inputs\<close>

lemma upt_0_numeral: "[0 ..< numeral n] = 0 # [Suc 0 ..< numeral n]"
  by (simp add: upt_rec)

lemma upt_Suc_numeral:
  "[Suc m ..< numeral n] =
     (if Suc m < numeral n then Suc m # [Suc (Suc m) ..< numeral n] else [])"
  by (simp add: upt_rec)

lemma replicate_numeral_ev: "replicate (numeral n) x = x # replicate (pred_numeral n) x"
  by (simp add: numeral_eq_Suc)

lemma list_update_numeral_ev: "(x # xs)[numeral n := y] = x # xs[pred_numeral n := y]"
  by (simp add: numeral_eq_Suc)

lemmas ev = upt_0_numeral upt_Suc_numeral replicate_numeral_ev list_update_numeral_ev

lemmas run_defs = build_def budget_phase_def InitBudget_def ParallelGroupBuilder_def
  AddBudget_def InitStorage_def Push_def offset_key_def full_size_def last_thread_size_def
  resize_def sz_add_def sz_sub_def sz_mul_def rm_thread_step_def rm_cell_step_def
  sh_thread_step_def sh_key_step_def sh_resize_rptr_def rptr_fill_value_def


section \<open>Arithmetic and InitBudget\<close>

lemma sz_add_id: "a + b < 2 ^ 64 \<Longrightarrow> sz_add a b = a + b"
  by (simp add: sz_add_def)

lemma sz_sub_id: "b \<le> a \<Longrightarrow> a < 2 ^ 64 \<Longrightarrow> sz_sub a b = a - b"
  by (simp add: sz_sub_def mod_if)

lemma sz_sub_self: "sz_sub a a = 0"
proof -
  have "(a + (2 ^ 64 - a mod 2 ^ 64)) mod 2 ^ 64 = (a mod 2 ^ 64 + (2 ^ 64 - a mod 2 ^ 64)) mod (2 ^ 64 :: nat)"
    by (rule mod_add_left_eq[symmetric])
  also have "a mod 2 ^ 64 + (2 ^ 64 - a mod 2 ^ 64) = (2 ^ 64 :: nat)"
    by simp
  finally show ?thesis by (simp add: sz_sub_def)
qed

lemma sz_mul_id: "a * b < 2 ^ 64 \<Longrightarrow> sz_mul a b = a * b"
  by (simp add: sz_mul_def)

lemma length_resize: "length (resize xs n v) = n"
  by (simp add: resize_def)

lemma resize_Nil: "resize [] n v = replicate n v"
  by (simp add: resize_def)

lemma fold_update_prefix:
  "m \<le> length xs \<Longrightarrow>
   fold (\<lambda>i ys. ys[i := f (ys ! i)]) [0 ..< m] xs = map f (take m xs) @ drop m xs"
proof (induction m)
  case 0
  then show ?case by simp
next
  case (Suc m)
  then have m: "m < length xs" by simp
  have a: "(map f (take m xs) @ drop m xs) ! m = xs ! m"
    using m by (simp add: nth_append)
  have b: "(map f (take m xs) @ drop m xs)[m := y] = map f (take m xs) @ y # drop (Suc m) xs" for y
    using m by (simp add: list_update_append Cons_nth_drop_Suc[symmetric])
  show ?case using Suc m
    by (simp add: take_Suc_conv_app_nth a b)
qed

lemma init_buffers:
  "(fold (\<lambda>i trs. trs[i := resize (trs ! i) ts (0::nat)]) [0 ..< k] (replicate k [] @ [[]]))
     [k := resize (fold (\<lambda>i trs. trs[i := resize (trs ! i) ts 0]) [0 ..< k]
                     (replicate k [] @ [[]]) ! k) lts 0]
   = replicate k (replicate ts 0) @ [replicate lts 0]"
proof -
  have "fold (\<lambda>i trs. trs[i := resize (trs ! i) ts (0::nat)]) [0 ..< k] (replicate k [] @ [[]])
        = replicate k (replicate ts 0) @ [[]]"
    using fold_update_prefix[of k "replicate k [] @ [[]]" "\<lambda>tr. resize tr ts (0::nat)"]
    by (simp add: resize_Nil)
  then show ?thesis
    by (simp add: nth_append list_update_append resize_Nil)
qed

lemma init_buffers_Suc:
  "(fold (\<lambda>i trs. trs[i := resize (trs ! i) ts (0::nat)]) [0 ..< k] (replicate (Suc k) []))
     [k := resize (fold (\<lambda>i trs. trs[i := resize (trs ! i) ts 0]) [0 ..< k]
                     (replicate (Suc k) []) ! k) lts 0]
   = replicate k (replicate ts 0) @ [replicate lts 0]"
  using init_buffers[of ts k lts] by (simp only: replicate_Suc replicate_append_same)

lemma InitBudget_fresh:
  assumes "0 < nthread"
  shows "InitBudget rm max_key nthread (ParallelGroupBuilder p_rptr p_data base) =
    Some \<lparr>rptr = p_rptr, data = p_data,
          thread_rptr =
            replicate (nthread - 1)
              (replicate (if rm then full_size rm max_key base div nthread
                          else full_size rm max_key base) 0)
            @ [replicate (last_thread_size rm (full_size rm max_key base) nthread
                           (if rm then full_size rm max_key base div nthread else 0)) 0],
          base_row_offset = base,
          thread_displacement = (if rm then full_size rm max_key base div nthread else 0)\<rparr>"
proof -
  obtain k where k: "nthread = Suc k" using assms by (cases nthread) auto
  show ?thesis
    by (simp add: InitBudget_def ParallelGroupBuilder_def Let_def resize_Nil k init_buffers_Suc
           del: replicate_Suc)
qed



section \<open>The merge of shared mode\<close>

lemma wrap_id: "x < 2 ^ 64 \<Longrightarrow> wrap x = x"
  by (simp add: wrap_def)

lemma wrap_0: "wrap 0 = 0"
  by (simp add: wrap_def)

lemma sz_add_wrap: "sz_add a b = wrap (a + b)"
  by (simp add: sz_add_def wrap_def)

lemma sz_add_wrap1: "sz_add (wrap a) b = wrap (a + b)"
  by (simp add: sz_add_def wrap_def mod_add_left_eq)

lemma wrap_wrap_add1: "wrap (wrap a + b) = wrap (a + b)"
  by (simp add: wrap_def mod_add_left_eq)

lemma wrap_wrap_add2: "wrap (a + wrap b) = wrap (a + b)"
  by (simp add: wrap_def mod_add_right_eq)

lemma sh_before_Suc: "sh_before trs j (Suc m) = sh_before trs j m + cnt trs j m"
  by (simp add: sh_before_def)

lemma sh_before_row_end: "sh_before trs j (length trs) = sh_before trs (Suc j) 0"
  by (simp add: sh_before_def rowsum_def)

lemma length_sh_part: "length (sh_part back j m trs) = length trs"
  by (simp add: sh_part_def)

lemma length_sh_part_nth:
  "t < length trs \<Longrightarrow> length (sh_part back j m trs ! t) = length (trs ! t)"
  by (simp add: sh_part_def)

lemma sh_part_nth_nth:
  "t < length trs \<Longrightarrow> j' < length (trs ! t) \<Longrightarrow>
   sh_part back j m trs ! t ! j' =
     (if j' < j \<or> (j' = j \<and> t < m) then wrap (back + sh_before trs j' t) else trs ! t ! j')"
  by (simp add: sh_part_def)

lemma sh_part_0_0: "sh_part back 0 0 trs = trs"
  by (simp add: sh_part_def map_nth)

lemma sh_part_row_end: "sh_part back j (length trs) trs = sh_part back (Suc j) 0 trs"
  by (auto simp: sh_part_def less_Suc_eq)

lemma list_list_eqI:
  assumes "length xss = length yss"
    and "\<And>t. t < length yss \<Longrightarrow> length (xss ! t) = length (yss ! t)"
    and "\<And>t j. t < length yss \<Longrightarrow> j < length (yss ! t) \<Longrightarrow> xss ! t ! j = yss ! t ! j"
  shows "xss = yss"
  using assms by (metis nth_equalityI)

lemma sh_thread_step_part:
  assumes m: "m < length trs" and len: "length (trs ! m) + base < 2 ^ 64"
  shows "sh_thread_step base back (base + j) m (sh_part back j m trs, wrap (sh_before trs j m))
         = (sh_part back j (Suc m) trs, wrap (sh_before trs j (Suc m)))"
proof -
  have sz: "sz_add (length (sh_part back j m trs ! m)) base = length (trs ! m) + base"
    using m len by (simp add: length_sh_part_nth sz_add_id)
  show ?thesis
  proof (cases "j < length (trs ! m)")
    case True
    have upd: "(sh_part back j m trs)[m := (sh_part back j m trs ! m)[j := wrap (sh_before trs j m + back)]]
               = sh_part back j (Suc m) trs"
      using m True
      by (intro list_list_eqI)
         (auto simp: length_sh_part length_sh_part_nth sh_part_nth_nth nth_list_update
            less_Suc_eq add.commute)
    have cell: "sh_part back j m trs ! m ! j = trs ! m ! j"
      using m True by (simp add: sh_part_nth_nth)
    have c: "cnt trs j m = trs ! m ! j"
      using True by (simp add: cnt_def)
    show ?thesis
      using True
      by (simp add: sh_thread_step_def Let_def sz cell upd sh_before_Suc c sz_add_wrap1)
  next
    case False
    have same: "sh_part back j m trs = sh_part back j (Suc m) trs"
      using False
      by (intro list_list_eqI)
         (auto simp: length_sh_part length_sh_part_nth sh_part_nth_nth less_Suc_eq)
    have c: "cnt trs j m = 0"
      using False by (simp add: cnt_def)
    have "sh_thread_step base back (base + j) m (sh_part back j m trs, wrap (sh_before trs j m))
          = (sh_part back j m trs, wrap (sh_before trs j m))"
      using False by (simp add: sh_thread_step_def Let_def sz)
    also have "\<dots> = (sh_part back j (Suc m) trs, wrap (sh_before trs j (Suc m)))"
      using same by (simp add: sh_before_Suc c)
    finally show ?thesis .
  qed
qed

lemma sh_inner_loop:
  assumes "m \<le> length trs" and "\<forall>t<length trs. length (trs ! t) + base < 2 ^ 64"
  shows "fold (sh_thread_step base back (base + j)) [0 ..< m]
           (sh_part back j 0 trs, wrap (sh_before trs j 0))
         = (sh_part back j m trs, wrap (sh_before trs j m))"
  using assms
proof (induction m)
  case 0
  then show ?case by simp
next
  case (Suc m)
  then show ?case by (simp add: sh_thread_step_part)
qed


lemma sz_add_wrap2: "sz_add a (wrap b) = wrap (a + b)"
  by (simp add: sz_add_def wrap_def mod_add_right_eq)

lemma sh_key_step_part:
  assumes lens: "\<forall>t<length trs. length (trs ! t) + base < 2 ^ 64" and bk: "last rp = back"
  shows "sh_key_step base (base + j) (sh_part back j 0 trs, wrap (sh_before trs j 0), rp)
         = (sh_part back (Suc j) 0 trs, wrap (sh_before trs (Suc j) 0),
            rp[base + j + 1 := wrap (rp ! (base + j + 1) + sh_before trs (Suc j) 0)])"
  using sh_inner_loop[OF le_refl lens, of "back" j]
  by (simp add: sh_key_step_def bk length_sh_part sh_part_row_end sh_before_row_end sz_add_wrap2)

lemma length_sh_offs: "length (sh_offs base J trs rp) = length rp"
  by (simp add: sh_offs_def)

lemma sh_offs_nth:
  "idx < length rp \<Longrightarrow>
   sh_offs base J trs rp ! idx =
     (if base < idx \<and> idx \<le> base + J then wrap (rp ! idx + sh_before trs (idx - base) 0)
      else rp ! idx)"
  by (simp add: sh_offs_def)

lemma sh_offs_0: "sh_offs base 0 trs rp = rp"
  by (rule nth_equalityI) (auto simp: length_sh_offs sh_offs_nth)

lemma last_sh_offs:
  assumes "base + J + 1 < length rp"
  shows "last (sh_offs base J trs rp) = last rp"
proof -
  have "rp \<noteq> []" "sh_offs base J trs rp \<noteq> []"
    using assms by (auto simp: sh_offs_def)
  then show ?thesis
    using assms by (auto simp: last_conv_nth length_sh_offs sh_offs_nth)
qed

lemma sh_offs_Suc:
  assumes "base + J + 1 < length rp"
  shows "(sh_offs base J trs rp)
           [base + J + 1 := wrap (sh_offs base J trs rp ! (base + J + 1) + sh_before trs (Suc J) 0)]
         = sh_offs base (Suc J) trs rp"
  using assms
  by (intro nth_equalityI) (auto simp: length_sh_offs sh_offs_nth nth_list_update)

lemma sh_outer_loop:
  assumes lens: "\<forall>t<length trs. length (trs ! t) + base < 2 ^ 64"
    and J: "base + J < length rp"
  shows "fold (sh_key_step base) [base ..< base + J] (trs, 0, rp)
         = (sh_part (last rp) J 0 trs, wrap (sh_before trs J 0), sh_offs base J trs rp)"
  using J
proof (induction J)
  case 0
  then show ?case by (simp add: sh_part_0_0 sh_offs_0 sh_before_def wrap_0)
next
  case (Suc J)
  then have J: "base + J + 1 < length rp" by simp
  have step: "sh_key_step base (base + J)
                (sh_part (last rp) J 0 trs, wrap (sh_before trs J 0), sh_offs base J trs rp)
              = (sh_part (last rp) (Suc J) 0 trs, wrap (sh_before trs (Suc J) 0),
                 sh_offs base (Suc J) trs rp)"
    using sh_key_step_part[OF lens last_sh_offs[OF J], of J trs] sh_offs_Suc[OF J, of trs]
    by simp
  show ?case using Suc J by (simp add: step)
qed

lemma sh_rptr_len_ge: "l \<le> sh_rptr_len base trs l"
proof (induction trs arbitrary: l)
  case Nil
  then show ?case by (simp add: sh_rptr_len_def)
next
  case (Cons a trs)
  have "l \<le> max l (length a + base + 1)" by simp
  also have "\<dots> \<le> sh_rptr_len base trs (max l (length a + base + 1))"
    by (rule Cons.IH)
  finally show ?case by (simp add: sh_rptr_len_def)
qed

lemma sh_rptr_len_mono: "l \<le> l' \<Longrightarrow> sh_rptr_len base trs l \<le> sh_rptr_len base trs l'"
  unfolding sh_rptr_len_def
  by (induction trs arbitrary: l l') auto

lemma sh_rptr_len_covers:
  "tr \<in> set trs \<Longrightarrow> length tr + base + 1 \<le> sh_rptr_len base trs l"
proof (induction trs arbitrary: l)
  case Nil
  then show ?case by simp
next
  case (Cons a trs)
  show ?case
  proof (cases "tr = a")
    case True
    have "length a + base + 1 \<le> max l (length a + base + 1)" by simp
    also have "\<dots> \<le> sh_rptr_len base trs (max l (length a + base + 1))"
      by (rule sh_rptr_len_ge)
    finally show ?thesis using True by (simp add: sh_rptr_len_def)
  next
    case False
    with Cons show ?thesis by (simp add: sh_rptr_len_def)
  qed
qed

lemma sh_resize_rptr_eq:
  assumes "\<forall>tr\<in>set trs. length tr + base + 1 < 2 ^ 64"
  shows "sh_resize_rptr base fill trs rp0
         = rp0 @ replicate (sh_rptr_len base trs (length rp0) - length rp0) fill"
  using assms
proof (induction trs arbitrary: rp0)
  case Nil
  then show ?case by (simp add: sh_resize_rptr_def sh_rptr_len_def)
next
  case (Cons a trs)
  have sz: "sz_add (length a) base = length a + base"
           "sz_add (length a + base) 1 = length a + base + 1"
    using Cons.prems by (simp_all add: sz_add_id)
  let ?rp = "if length rp0 \<le> length a + base then resize rp0 (length a + base + 1) fill else rp0"
  have unf: "sh_resize_rptr base fill (a # trs) rp0 = sh_resize_rptr base fill trs ?rp"
    using Cons.prems by (simp add: sh_resize_rptr_def sz_add_id)
  have rp: "?rp = rp0 @ replicate (max (length rp0) (length a + base + 1) - length rp0) fill"
    by (auto simp: resize_def max_def)
  have len: "length ?rp = max (length rp0) (length a + base + 1)"
    by (auto simp: resize_def max_def)
  have ge: "max (length rp0) (length a + base + 1)
            \<le> sh_rptr_len base trs (max (length rp0) (length a + base + 1))"
    by (rule sh_rptr_len_ge)
  have "sh_resize_rptr base fill trs ?rp
        = ?rp @ replicate (sh_rptr_len base trs (length ?rp) - length ?rp) fill"
    using Cons.prems by (intro Cons.IH) simp
  also have "\<dots> = rp0 @ replicate (sh_rptr_len base (a # trs) (length rp0) - length rp0) fill"
    using ge unfolding len
    by (subst rp) (simp add: sh_rptr_len_def replicate_add[symmetric] del: replicate_add)
  finally show ?case using unf by simp
qed

lemma last_append_replicate_last: "xs \<noteq> [] \<Longrightarrow> last (xs @ replicate k (last xs)) = last xs"
  by (induction k) auto

lemma last_sh_rp1: "sh_rp1 b \<noteq> [] \<Longrightarrow> last (sh_rp1 b) = rptr_fill_value (rptr b)"
  by (cases "rptr b = []") (auto simp: sh_rp1_def rptr_fill_value_def last_append_replicate_last)

lemma length_sh_rp1:
  "length (sh_rp1 b) = sh_rptr_len (base_row_offset b) (thread_rptr b) (length (rptr b))"
  using sh_rptr_len_ge[of "length (rptr b)" "base_row_offset b" "thread_rptr b"]
  by (simp add: sh_rp1_def)

lemma sh_rp1_covers:
  "tr \<in> set (thread_rptr b) \<Longrightarrow> length tr + base_row_offset b + 1 \<le> length (sh_rp1 b)"
  using sh_rptr_len_covers[of tr "thread_rptr b" "base_row_offset b" "length (rptr b)"]
  by (simp add: length_sh_rp1)

lemma InitStorage_shared:
  assumes lens: "\<forall>tr\<in>set (thread_rptr b). length tr + base_row_offset b + 1 < 2 ^ 64"
    and ne: "thread_rptr b \<noteq> []"
  shows "InitStorage False dv b =
           Some (b\<lparr>rptr := sh_offs (base_row_offset b) (sh_rows b) (thread_rptr b) (sh_rp1 b),
                   thread_rptr := sh_part (rptr_fill_value (rptr b)) (sh_rows b) 0 (thread_rptr b),
                   data := resize (data b)
                     (last (sh_offs (base_row_offset b) (sh_rows b) (thread_rptr b) (sh_rp1 b))) dv\<rparr>)"
proof -
  let ?base = "base_row_offset b" and ?trs = "thread_rptr b"
  have rp1: "sh_resize_rptr ?base (rptr_fill_value (rptr b)) ?trs (rptr b) = sh_rp1 b"
    using lens by (simp add: sh_resize_rptr_eq sh_rp1_def)
  obtain tr where tr: "tr \<in> set ?trs" using ne by (cases ?trs) auto
  have big: "?base + 1 \<le> length (sh_rp1 b)"
    using sh_rp1_covers[OF tr] by simp
  then have nonempty: "sh_rp1 b \<noteq> []" by auto
  have rows: "?base + sh_rows b = length (sh_rp1 b) - 1" "?base + sh_rows b < length (sh_rp1 b)"
    using big by (simp_all add: sh_rows_def)
  have lens': "\<forall>t<length ?trs. length (?trs ! t) + ?base < 2 ^ 64"
    using lens by (auto dest!: nth_mem)
  have loop: "fold (sh_key_step ?base) [?base ..< length (sh_rp1 b) - 1] (?trs, 0, sh_rp1 b)
        = (sh_part (rptr_fill_value (rptr b)) (sh_rows b) 0 ?trs,
           wrap (sh_before ?trs (sh_rows b) 0),
           sh_offs ?base (sh_rows b) ?trs (sh_rp1 b))"
    using sh_outer_loop[OF lens' rows(2)] by (simp add: rows(1) last_sh_rp1[OF nonempty])
  have "sh_offs ?base (sh_rows b) ?trs (sh_rp1 b) \<noteq> []"
    using nonempty by (simp add: sh_offs_def)
  then show ?thesis
    using loop by (simp add: InitStorage_def Let_def rp1)
qed

section \<open>The merge of partitioned mode\<close>

lemma length_rm_buf: "length (rm_buf fill c m buf) = length buf"
  by (simp add: rm_buf_def)

lemma rm_buf_nth:
  "j < length buf \<Longrightarrow>
   rm_buf fill c m buf ! j = (if j < m then wrap (fill + c + sum_list (take j buf)) else buf ! j)"
  by (simp add: rm_buf_def)

lemma rm_buf_0: "rm_buf fill c 0 buf = buf"
  by (rule nth_equalityI) (simp_all add: length_rm_buf rm_buf_nth)

lemma length_rm_offs: "length (rm_offs start P cs rp) = length rp"
  by (simp add: rm_offs_def)

lemma rm_offs_nth:
  "idx < length rp \<Longrightarrow>
   rm_offs start P cs rp ! idx =
     (if start \<le> idx \<and> idx < start + P
      then wrap (rp ! idx + sum_list (take (idx - start + 1) cs)) else rp ! idx)"
  by (simp add: rm_offs_def)

lemma rm_offs_0: "rm_offs start 0 cs rp = rp"
  by (rule nth_equalityI) (simp_all add: length_rm_offs rm_offs_nth)

lemma rm_cell_step_part:
  assumes cs: "cs = pre @ buf @ post" and m: "m < length buf"
    and inr: "start + length pre + m < length rp0" and small: "length rp0 < 2 ^ 64"
  shows "rm_cell_step fill m
           (rm_buf fill (sum_list pre) m buf, wrap (sum_list pre + sum_list (take m buf)),
            start + length pre + m, rm_offs start (length pre + m) cs rp0)
         = (rm_buf fill (sum_list pre) (Suc m) buf,
            wrap (sum_list pre + sum_list (take (Suc m) buf)),
            start + length pre + Suc m, rm_offs start (length pre + Suc m) cs rp0)"
proof -
  let ?o = "start + length pre + m"
  have cell: "rm_buf fill (sum_list pre) m buf ! m = buf ! m"
    using m by (simp add: rm_buf_nth)
  have S: "sum_list (take (Suc m) buf) = sum_list (take m buf) + buf ! m"
    using m by (simp add: take_Suc_conv_app_nth)
  have upd: "(rm_buf fill (sum_list pre) m buf)[m := wrap (sum_list pre + sum_list (take m buf) + fill)]
             = rm_buf fill (sum_list pre) (Suc m) buf"
    using m
    by (intro nth_equalityI)
       (auto simp: length_rm_buf rm_buf_nth nth_list_update less_Suc_eq ac_simps)
  have o1: "sz_add ?o 1 = start + length pre + Suc m"
    using inr small by (simp add: sz_add_id)
  have old: "rm_offs start (length pre + m) cs rp0 ! ?o = rp0 ! ?o"
    using inr by (simp add: rm_offs_nth)
  have tk: "take (length pre + m + 1) cs = pre @ take (Suc m) buf"
    using m by (simp add: cs)
  have rp: "(rm_offs start (length pre + m) cs rp0)
              [?o := wrap (rp0 ! ?o + (sum_list pre + sum_list (take (Suc m) buf)))]
            = rm_offs start (length pre + Suc m) cs rp0"
    using inr tk
    by (intro nth_equalityI)
       (auto simp: length_rm_offs rm_offs_nth nth_list_update add.assoc)
  have c1: "sz_add (wrap (sum_list pre + sum_list (take m buf))) (buf ! m)
            = wrap (sum_list pre + sum_list (take (Suc m) buf))"
    by (simp add: sz_add_wrap1 S add.assoc del: take_Suc)
  have c0: "sz_add (wrap (sum_list pre + sum_list (take m buf))) fill
            = wrap (sum_list pre + sum_list (take m buf) + fill)"
    by (simp add: sz_add_wrap1)
  have r1: "sz_add (rp0 ! ?o) (wrap (sum_list pre + sum_list (take (Suc m) buf)))
            = wrap (rp0 ! ?o + (sum_list pre + sum_list (take (Suc m) buf)))"
    by (simp add: sz_add_wrap2 del: take_Suc)
  have lt: "?o < length (rm_offs start (length pre + m) cs rp0)"
    using inr by (simp add: length_rm_offs)
  show ?thesis
    unfolding rm_cell_step_def Let_def prod.case cell c1 c0 upd
    by (simp only: lt if_True o1 old r1 rp)
qed


lemma rm_thread_loop:
  assumes cs: "cs = pre @ buf @ post" and m: "m \<le> length buf"
    and inr: "start + length pre + length buf \<le> length rp0" and small: "length rp0 < 2 ^ 64"
  shows "fold (rm_cell_step fill) [0 ..< m]
           (buf, wrap (sum_list pre), start + length pre, rm_offs start (length pre) cs rp0)
         = (rm_buf fill (sum_list pre) m buf, wrap (sum_list pre + sum_list (take m buf)),
            start + length pre + m, rm_offs start (length pre + m) cs rp0)"
  using m
proof (induction m)
  case 0
  then show ?case by (simp add: rm_buf_0)
next
  case (Suc m)
  then have m: "m < length buf" by simp
  have "start + length pre + m < length rp0" using m inr by simp
  from rm_cell_step_part[OF cs m this small, of fill] Suc.IH m
  show ?case by (simp del: take_Suc)
qed

lemma length_rm_tpart: "length (rm_tpart fill t trs) = length trs"
  by (simp add: rm_tpart_def)

lemma rm_tpart_nth:
  "t' < length trs \<Longrightarrow>
   rm_tpart fill t trs ! t' =
     (if t' < t then map (\<lambda>j. wrap (fill + rm_before trs t' j)) [0 ..< length (trs ! t')]
      else trs ! t')"
  by (simp add: rm_tpart_def)

lemma rm_tpart_0: "rm_tpart fill 0 trs = trs"
  by (rule nth_equalityI) (simp_all add: length_rm_tpart rm_tpart_nth)

lemma rm_tpart_all: "rm_tpart fill (length trs) trs = rm_cells fill trs"
  by (simp add: rm_tpart_def rm_cells_def)

lemma rm_buf_full:
  "rm_buf fill c (length buf) buf
   = map (\<lambda>j. wrap (fill + (c + sum_list (take j buf)))) [0 ..< length buf]"
  by (simp add: rm_buf_def add.assoc)

lemma rm_tpart_Suc:
  assumes "t < length trs"
  shows "(rm_tpart fill t trs)
           [t := rm_buf fill (sum_list (concat (take t trs))) (length (trs ! t)) (trs ! t)]
         = rm_tpart fill (Suc t) trs"
  using assms
  by (intro nth_equalityI)
     (auto simp: length_rm_tpart rm_tpart_nth nth_list_update rm_buf_full rm_before_def less_Suc_eq)

lemma concat_split_nth:
  "t < length trs \<Longrightarrow> concat trs = concat (take t trs) @ trs ! t @ concat (drop (Suc t) trs)"
  by (metis concat.simps(2) concat_append id_take_nth_drop)

lemma concat_take_Suc:
  "t < length trs \<Longrightarrow> concat (take (Suc t) trs) = concat (take t trs) @ trs ! t"
  by (simp add: take_Suc_conv_app_nth)

lemma length_concat_take_le:
  "length (concat (take t trs)) \<le> length (concat trs)"
  by (metis append_take_drop_id concat_append le_add1 length_append)

lemma rm_thread_step_part:
  assumes t: "t < length trs"
    and inr: "start + length (concat trs) \<le> length rp0" and small: "length rp0 < 2 ^ 64"
  shows "rm_thread_step fill t
           (rm_tpart fill t trs, wrap (sum_list (concat (take t trs))),
            start + length (concat (take t trs)),
            rm_offs start (length (concat (take t trs))) (concat trs) rp0)
         = (rm_tpart fill (Suc t) trs, wrap (sum_list (concat (take (Suc t) trs))),
            start + length (concat (take (Suc t) trs)),
            rm_offs start (length (concat (take (Suc t) trs))) (concat trs) rp0)"
proof -
  let ?pre = "concat (take t trs)" and ?buf = "trs ! t"
  have cur: "rm_tpart fill t trs ! t = ?buf"
    using t by (simp add: rm_tpart_nth)
  have "length (concat (take (Suc t) trs)) \<le> length (concat trs)"
    by (rule length_concat_take_le)
  then have inr': "start + length ?pre + length ?buf \<le> length rp0"
    using inr t by (simp add: concat_take_Suc)
  have loop: "fold (rm_cell_step fill) [0 ..< length ?buf]
           (?buf, wrap (sum_list ?pre), start + length ?pre,
            rm_offs start (length ?pre) (concat trs) rp0)
         = (rm_buf fill (sum_list ?pre) (length ?buf) ?buf,
            wrap (sum_list ?pre + sum_list ?buf),
            start + length ?pre + length ?buf,
            rm_offs start (length ?pre + length ?buf) (concat trs) rp0)"
    using rm_thread_loop[OF concat_split_nth[OF t] le_refl inr' small, of fill] by simp
  show ?thesis
    unfolding rm_thread_step_def prod.case cur loop
    using t by (simp add: rm_tpart_Suc concat_take_Suc add.assoc)
qed

lemma rm_outer_loop:
  assumes inr: "start + length (concat trs) \<le> length rp0" and small: "length rp0 < 2 ^ 64"
    and t: "t \<le> length trs"
  shows "fold (rm_thread_step fill) [0 ..< t] (trs, 0, start, rp0)
         = (rm_tpart fill t trs, wrap (sum_list (concat (take t trs))),
            start + length (concat (take t trs)),
            rm_offs start (length (concat (take t trs))) (concat trs) rp0)"
  using t
proof (induction t)
  case 0
  then show ?case by (simp add: rm_tpart_0 rm_offs_0 wrap_0)
next
  case (Suc t)
  then have t: "t < length trs" by simp
  from rm_thread_step_part[OF t inr small, of fill] Suc.IH t
  show ?case by (simp del: take_Suc)
qed

lemma expected_rows_eq:
  "fold (\<lambda>trptr acc. sz_add acc (length trptr)) trs (wrap a) = wrap (a + length (concat trs))"
  by (induction trs arbitrary: a) (simp_all add: sz_add_wrap1 add.assoc)

lemma length_rm_rp1: "length (rm_rp1 b) = length (concat (thread_rptr b)) + base_row_offset b + 1"
  by (simp add: rm_rp1_def length_resize)

lemma InitStorage_partitioned:
  assumes small: "length (concat (thread_rptr b)) + base_row_offset b + 1 < 2 ^ 64"
  shows "InitStorage True dv b =
           Some (b\<lparr>rptr := rm_offs (base_row_offset b + 1) (length (concat (thread_rptr b)))
                            (concat (thread_rptr b)) (rm_rp1 b),
                   thread_rptr := rm_cells (rptr_fill_value (rptr b)) (thread_rptr b),
                   data := resize (data b)
                     (last (rm_offs (base_row_offset b + 1) (length (concat (thread_rptr b)))
                              (concat (thread_rptr b)) (rm_rp1 b))) dv\<rparr>)"
proof -
  let ?base = "base_row_offset b" and ?trs = "thread_rptr b"
  have er: "fold (\<lambda>trptr acc. sz_add acc (length trptr)) ?trs 0 = length (concat ?trs)"
    using expected_rows_eq[of ?trs 0] small by (simp add: wrap_0 wrap_id)
  have sz: "sz_add (sz_add (length (concat ?trs)) ?base) 1 = length (concat ?trs) + ?base + 1"
           "sz_add ?base 1 = ?base + 1"
    using small by (simp_all add: sz_add_id)
  have rp1: "resize (rptr b) (length (concat ?trs) + ?base + 1) (rptr_fill_value (rptr b)) = rm_rp1 b"
    by (simp add: rm_rp1_def)
  have loop: "fold (rm_thread_step (rptr_fill_value (rptr b))) [0 ..< length ?trs]
                (?trs, 0, ?base + 1, rm_rp1 b)
        = (rm_cells (rptr_fill_value (rptr b)) ?trs, wrap (sum_list (concat ?trs)),
           ?base + 1 + length (concat ?trs),
           rm_offs (?base + 1) (length (concat ?trs)) (concat ?trs) (rm_rp1 b))"
    using rm_outer_loop[of "?base + 1" ?trs "rm_rp1 b" "length ?trs" "rptr_fill_value (rptr b)"] small
    by (simp add: length_rm_rp1 rm_tpart_all)
  have ne: "rm_offs (?base + 1) (length (concat ?trs)) (concat ?trs) (rm_rp1 b) \<noteq> []"
    by (simp add: rm_offs_def length_rm_rp1 flip: length_0_conv)
  show ?thesis
    unfolding InitStorage_def Let_def er sz rp1 loop
    using ne by simp
qed

section \<open>The budget phase\<close>

lemma InitBudget_new:
  assumes n: "0 < nthread" and mk: "max_key < 2 ^ 64"
  shows "InitBudget rm max_key nthread (ParallelGroupBuilder p_rptr p_data base) =
    Some \<lparr>rptr = p_rptr, data = p_data,
          thread_rptr = init_bufs rm base max_key nthread,
          base_row_offset = base,
          thread_displacement = (if rm then max_key div nthread else 0)\<rparr>"
proof -
  let ?d = "max_key div nthread"
  have le: "(nthread - 1) * ?d \<le> max_key"
  proof -
    have "(nthread - 1) * ?d \<le> nthread * ?d" by (simp add: mult_le_mono1)
    also have "\<dots> \<le> max_key" by simp
    finally show ?thesis .
  qed
  have fs: "full_size True max_key base = max_key" "full_size False max_key base = max_key - base"
    using mk by (auto simp: full_size_def sz_sub_id min_def sz_sub_self)
  have lts: "last_thread_size True max_key nthread ?d = max_key - (nthread - 1) * ?d"
    using le mk by (simp add: last_thread_size_def sz_mul_id sz_sub_id)
  have bufs: "replicate (nthread - 1) (replicate (if rm then ?d else max_key - base) 0)
               @ [replicate (if rm then max_key - (nthread - 1) * ?d else max_key - base) 0]
             = init_bufs rm base max_key nthread"
    using n
    by (intro nth_equalityI) (auto simp: init_bufs_def buf_len_def nth_append less_Suc_eq)
  show ?thesis
  proof (cases rm)
    case True
    with bufs show ?thesis by (simp add: InitBudget_fresh[OF n] fs lts)
  next
    case False
    with bufs show ?thesis by (simp add: InitBudget_fresh[OF n] fs last_thread_size_def)
  qed
qed

lemma wrap_lt: "wrap x < 2 ^ 64"
  by (simp add: wrap_def)

lemma sz_add_le: "sz_add a b \<le> a + b"
  by (simp add: sz_add_def)

lemma offset_key_cong:
  "base_row_offset b1 = base_row_offset b \<Longrightarrow> thread_displacement b1 = thread_displacement b
   \<Longrightarrow> offset_key rm b1 = offset_key rm b"
  by (intro ext) (simp add: offset_key_def)

lemma offset_key_upd [simp]:
  "offset_key rm (b\<lparr>thread_rptr := X\<rparr>) = offset_key rm b"
  "offset_key rm (b\<lparr>rptr := Y\<rparr>) = offset_key rm b"
  "offset_key rm (b\<lparr>data := Z\<rparr>) = offset_key rm b"
  by (rule offset_key_cong; simp)+

lemma budget_of_upd [simp]:
  "budget_of rm (b\<lparr>thread_rptr := X\<rparr>) = budget_of rm b"
  by (intro ext) (simp add: budget_of_def)

lemma AddBudget_in_cell:
  assumes "t < length (thread_rptr b)" and "offset_key rm b k t < length (thread_rptr b ! t)"
  shows "AddBudget rm k t n b =
           Some (b\<lparr>thread_rptr := (thread_rptr b)
                   [t := (thread_rptr b ! t)
                      [offset_key rm b k t := sz_add (thread_rptr b ! t ! offset_key rm b k t) n]]\<rparr>)"
proof -
  have "sz_add (offset_key rm b k t) 1 \<le> offset_key rm b k t + 1" by (rule sz_add_le)
  then have "\<not> length (thread_rptr b ! t) < sz_add (offset_key rm b k t) 1"
    using assms(2) by simp
  then show ?thesis
    using assms by (simp add: AddBudget_def Let_def)
qed

lemma budget_of_Nil: "budget_of rm b [] t j = 0"
  by (simp add: budget_of_def)

lemma budget_of_Cons:
  "budget_of rm b ((k, t0, n) # cs) t j =
     (if t0 = t \<and> offset_key rm b k t0 = j then n else 0) + budget_of rm b cs t j"
  by (auto simp: budget_of_def)

lemma budgeted_Nil: "cells_small (thread_rptr b) \<Longrightarrow> budgeted rm b [] = thread_rptr b"
  by (intro list_list_eqI)
     (auto simp: budgeted_def budget_of_Nil cells_small_def wrap_id)

lemma add_budgets_closed:
  assumes "in_cells rm b cs" and "cells_small (thread_rptr b)"
  shows "add_budgets rm cs b = Some (b\<lparr>thread_rptr := budgeted rm b cs\<rparr>)"
  using assms
proof (induction cs arbitrary: b)
  case Nil
  then show ?case by (simp add: budgeted_Nil)
next
  case (Cons c cs)
  obtain k t n where c: "c = (k, t, n)" by (cases c) auto
  let ?trs = "thread_rptr b" and ?j = "offset_key rm b k t"
  have t: "t < length ?trs" and j: "?j < length (?trs ! t)"
    using Cons.prems(1) by (auto simp: in_cells_def c)
  let ?trs1 = "?trs[t := (?trs ! t)[?j := sz_add (?trs ! t ! ?j) n]]"
  let ?b1 = "b\<lparr>thread_rptr := ?trs1\<rparr>"
  have step: "AddBudget rm k t n b = Some ?b1"
    by (rule AddBudget_in_cell[OF t j])
  have shape: "length ?trs1 = length ?trs" "\<And>t'. t' < length ?trs \<Longrightarrow> length (?trs1 ! t') = length (?trs ! t')"
    using t by (auto simp: nth_list_update)
  have ic: "in_cells rm ?b1 cs"
    using Cons.prems(1) shape by (auto simp: in_cells_def c)
  have small: "cells_small ?trs1"
    using Cons.prems(2) t j
    by (auto simp: cells_small_def nth_list_update sz_add_wrap wrap_lt[simplified])
  have cell: "wrap (?trs1 ! t' ! j' + budget_of rm b cs t' j')
              = wrap (?trs ! t' ! j' + budget_of rm b (c # cs) t' j')"
    if "t' < length ?trs" "j' < length (?trs ! t')" for t' j'
  proof (cases "t' = t \<and> j' = ?j")
    case True
    then show ?thesis
      using t j by (simp add: c budget_of_Cons sz_add_wrap wrap_wrap_add1 add.assoc)
  next
    case False
    then have "?trs1 ! t' ! j' = ?trs ! t' ! j'"
      using t by (cases "t' = t") (auto simp: nth_list_update)
    with False show ?thesis
      by (auto simp: c budget_of_Cons)
  qed
  have eq: "budgeted rm ?b1 cs = budgeted rm b (c # cs)"
  proof (intro list_list_eqI)
    show "length (budgeted rm ?b1 cs) = length (budgeted rm b (c # cs))"
      by (simp add: budgeted_def)
    show "length (budgeted rm ?b1 cs ! t') = length (budgeted rm b (c # cs) ! t')"
      if "t' < length (budgeted rm b (c # cs))" for t'
      using that shape by (simp add: budgeted_def)
    show "budgeted rm ?b1 cs ! t' ! j' = budgeted rm b (c # cs) ! t' ! j'"
      if "t' < length (budgeted rm b (c # cs))" "j' < length (budgeted rm b (c # cs) ! t')" for t' j'
    proof -
      have a: "t' < length ?trs" "j' < length (?trs ! t')"
        using that by (simp_all add: budgeted_def)
      then have b: "t' < length ?trs1" "j' < length (?trs1 ! t')"
        using shape by simp_all
      show ?thesis
        using cell[OF a] a b unfolding budgeted_def by simp
    qed
  qed
  show ?case
    using Cons.IH[OF ic] small step eq by (simp add: c)
qed

lemma InitBudget_start:
  "0 < nthread \<Longrightarrow> max_key < 2 ^ 64 \<Longrightarrow>
   InitBudget rm max_key nthread (ParallelGroupBuilder p_rptr p_data base)
   = Some (budget_start rm p_rptr p_data base max_key nthread)"
  by (simp add: InitBudget_new budget_start_def)

lemma div_slices_le: "(t::nat) < nthread \<Longrightarrow> (t + 1) * (max_key div nthread) \<le> max_key"
proof -
  assume "t < nthread"
  then have "t + 1 \<le> nthread" by simp
  then have "(t + 1) * (max_key div nthread) \<le> nthread * (max_key div nthread)"
    by (rule mult_le_mono1)
  also have "\<dots> \<le> max_key" by simp
  finally show ?thesis .
qed

lemma owns_less: "owns max_key nthread t r \<Longrightarrow> r < max_key"
  using div_slices_le[of t nthread max_key]
  by (auto simp: owns_def split: if_splits)

lemma offset_key_valid:
  assumes v: "valid_call rm base max_key nthread k t" and fit: "base + max_key < 2 ^ 64"
  shows "offset_key rm (budget_start rm p_rptr p_data base max_key nthread) k t
           = local_index rm base max_key nthread k t"
    and "local_index rm base max_key nthread k t < buf_len rm base max_key nthread t"
    and "t < nthread"
proof -
  show "t < nthread" using v by (auto simp: valid_call_def owns_def split: if_splits)
  show "local_index rm base max_key nthread k t < buf_len rm base max_key nthread t"
    using v by (auto simp: valid_call_def owns_def local_index_def buf_len_def split: if_splits)
  show "offset_key rm (budget_start rm p_rptr p_data base max_key nthread) k t
           = local_index rm base max_key nthread k t"
  proof (cases rm)
    case False
    with v fit show ?thesis
      by (simp add: valid_call_def offset_key_def budget_start_def local_index_def sz_sub_id)
  next
    case True
    let ?d = "max_key div nthread"
    from v True have bk: "base \<le> k" and ow: "owns max_key nthread t (k - base)"
      by (simp_all add: valid_call_def)
    have r: "k - base < max_key" using owns_less[OF ow] .
    then have k: "k < 2 ^ 64" using fit bk by simp
    have td: "t * ?d \<le> k - base" using ow by (simp add: owns_def)
    have "sz_sub k base = k - base" using bk k by (simp add: sz_sub_id)
    moreover have "sz_mul t ?d = t * ?d" using td r fit by (simp add: sz_mul_id)
    moreover have "sz_sub (k - base) (t * ?d) = k - base - t * ?d"
      using td r fit by (simp add: sz_sub_id)
    ultimately show ?thesis
      using True by (simp add: offset_key_def budget_start_def local_index_def)
  qed
qed

lemma buffers_start:
  "thread_rptr (budget_start rm p_rptr p_data base max_key nthread) = init_bufs rm base max_key nthread"
  "base_row_offset (budget_start rm p_rptr p_data base max_key nthread) = base"
  "rptr (budget_start rm p_rptr p_data base max_key nthread) = p_rptr"
  "data (budget_start rm p_rptr p_data base max_key nthread) = p_data"
  by (simp_all add: budget_start_def)

lemma init_bufs_shape:
  "length (init_bufs rm base max_key nthread) = nthread"
  "t < nthread \<Longrightarrow> length (init_bufs rm base max_key nthread ! t) = buf_len rm base max_key nthread t"
  "t < nthread \<Longrightarrow> j < buf_len rm base max_key nthread t \<Longrightarrow> init_bufs rm base max_key nthread ! t ! j = 0"
  by (simp_all add: init_bufs_def)

lemma in_cells_valid:
  assumes "\<forall>(k, t, x) \<in> set cs. valid_call rm base max_key nthread k t"
    and "base + max_key < 2 ^ 64"
  shows "in_cells rm (budget_start rm p_rptr p_data base max_key nthread) cs"
  unfolding in_cells_def
proof (intro ballI, clarify)
  fix k t x assume "(k, t, x) \<in> set cs"
  with assms(1) have v: "valid_call rm base max_key nthread k t" by auto
  note ok = offset_key_valid(1)[OF v assms(2), of p_rptr p_data]
    offset_key_valid(2,3)[OF v assms(2)]
  show "t < length (thread_rptr (budget_start rm p_rptr p_data base max_key nthread)) \<and>
        offset_key rm (budget_start rm p_rptr p_data base max_key nthread) k t
          < length (thread_rptr (budget_start rm p_rptr p_data base max_key nthread) ! t)"
    using ok by (simp add: buffers_start init_bufs_shape)
qed

lemma cells_small_init: "cells_small (init_bufs rm base max_key nthread)"
  by (simp add: cells_small_def init_bufs_shape)

lemma budget_phase_closed:
  assumes "0 < nthread" and "base + max_key < 2 ^ 64"
    and "\<forall>(k, t, n) \<in> set cs. valid_call rm base max_key nthread k t"
  shows "budget_phase rm p_rptr p_data base max_key nthread cs
         = Some ((budget_start rm p_rptr p_data base max_key nthread)
                   \<lparr>thread_rptr := budgeted rm (budget_start rm p_rptr p_data base max_key nthread) cs\<rparr>)"
proof -
  have mk: "max_key < 2 ^ 64" using assms(2) by simp
  show ?thesis
    unfolding budget_phase_def InitBudget_start[OF assms(1) mk]
    using add_budgets_closed[OF in_cells_valid[OF assms(3,2)], of p_rptr p_data]
    by (simp add: buffers_start cells_small_init)
qed

lemma budgeted_shape:
  "length (budgeted rm b cs) = length (thread_rptr b)"
  "t < length (thread_rptr b) \<Longrightarrow> length (budgeted rm b cs ! t) = length (thread_rptr b ! t)"
  by (simp_all add: budgeted_def)

lemma budgeted_nth:
  "t < length (thread_rptr b) \<Longrightarrow> j < length (thread_rptr b ! t) \<Longrightarrow>
   budgeted rm b cs ! t ! j = wrap (thread_rptr b ! t ! j + budget_of rm b cs t j)"
  by (simp add: budgeted_def)

lemma map_length_budgeted: "map length (budgeted rm b cs) = map length (thread_rptr b)"
  by (intro nth_equalityI) (simp_all add: budgeted_shape)

lemma sum_list_const: "(\<And>x. x \<in> set xs \<Longrightarrow> f x = (c::nat)) \<Longrightarrow> sum_list (map f xs) = length xs * c"
  by (induction xs) simp_all

lemma sum_buf_len:
  assumes "0 < nthread"
  shows "sum_list (map (buf_len True base max_key nthread) [0 ..< nthread]) = max_key"
proof -
  obtain k where k: "nthread = Suc k" using assms by (cases nthread) auto
  have "sum_list (map (buf_len True base max_key (Suc k)) [0 ..< k]) = k * (max_key div Suc k)"
    using sum_list_const[of "[0 ..< k]" "buf_len True base max_key (Suc k)" "max_key div Suc k"]
    by (simp add: buf_len_def)
  moreover have "k * (max_key div Suc k) \<le> max_key"
    using div_slices_le[of "k - 1" "Suc k" max_key] 
    by (cases k) (simp_all del: mult_Suc)
  ultimately show ?thesis
    by (simp add: k buf_len_def del: mult_Suc)
qed

lemma length_concat_budgeted:
  "length (concat (budgeted rm b cs)) = length (concat (thread_rptr b))"
  by (simp add: length_concat map_length_budgeted)

lemma length_concat_init_bufs:
  "0 < nthread \<Longrightarrow> length (concat (init_bufs True base max_key nthread)) = max_key"
proof -
  assume n: "0 < nthread"
  have "map length (init_bufs True base max_key nthread)
        = map (buf_len True base max_key nthread) [0 ..< nthread]"
    by (intro nth_equalityI) (simp_all add: init_bufs_shape)
  then show ?thesis
    using sum_buf_len[OF n] by (simp add: length_concat)
qed

lemma sh_rptr_len_uniform:
  assumes "\<forall>tr\<in>set trs. length tr = L"
  shows "sh_rptr_len base trs l = (if trs = [] then l else max l (L + base + 1))"
  using assms
proof (induction trs arbitrary: l)
  case Nil
  then show ?case by (simp add: sh_rptr_len_def)
next
  case (Cons a trs)
  have "sh_rptr_len base (a # trs) l = sh_rptr_len base trs (max l (length a + base + 1))"
    by (simp add: sh_rptr_len_def)
  also have "\<dots> = (if trs = [] then max l (L + base + 1)
                     else max (max l (L + base + 1)) (L + base + 1))"
    using Cons by simp
  finally show ?case by simp
qed

lemma shared_bufs_uniform:
  "\<forall>tr\<in>set (budgeted False (budget_start False p_rptr p_data base max_key nthread) cs).
     length tr = max_key - base"
proof
  fix tr assume "tr \<in> set (budgeted False (budget_start False p_rptr p_data base max_key nthread) cs)"
  then obtain t where "t < nthread"
      "tr = budgeted False (budget_start False p_rptr p_data base max_key nthread) cs ! t"
    by (auto simp: in_set_conv_nth budgeted_shape buffers_start init_bufs_shape)
  then show "length tr = max_key - base"
    by (simp add: budgeted_shape buffers_start init_bufs_shape buf_len_def)
qed


section \<open>Buffers of unequal length in shared mode\<close>

lemma fold_max_len_ge:
  "m0 \<le> fold (\<lambda>tr m. max m (length tr)) trs m0
   \<and> (\<forall>tr\<in>set trs. length tr \<le> fold (\<lambda>tr m. max m (length tr)) trs m0)"
proof (induction trs arbitrary: m0)
  case Nil
  then show ?case by simp
next
  case (Cons a trs)
  from Cons.IH[of "max m0 (length a)"] show ?case by auto
qed

lemma fold_max_len_attained:
  "fold (\<lambda>tr m. max m (length tr)) trs m0 = m0
   \<or> (\<exists>tr\<in>set trs. fold (\<lambda>tr m. max m (length tr)) trs m0 = length tr)"
proof (induction trs arbitrary: m0)
  case Nil
  then show ?case by simp
next
  case (Cons a trs)
  from Cons.IH[of "max m0 (length a)"] show ?case by (auto simp: max_def split: if_splits)
qed

lemma length_le_longest: "tr \<in> set trs \<Longrightarrow> length tr \<le> longest trs"
  using fold_max_len_ge[of 0 trs] by (simp add: longest_def)

lemma longest_attained: "trs \<noteq> [] \<Longrightarrow> \<exists>tr\<in>set trs. longest trs = length tr"
proof (cases trs)
  case Nil
  moreover assume "trs \<noteq> []"
  ultimately show ?thesis by simp
next
  case (Cons a list)
  show ?thesis
    using fold_max_len_attained[of list "length a"] by (auto simp: Cons longest_def)
qed

lemma sh_rptr_len_fold:
  "fold (\<lambda>trptr l. max l (length trptr + base + 1)) trs (max l (m0 + base + 1))
   = max l (fold (\<lambda>tr m. max m (length tr)) trs m0 + base + 1)"
proof (induction trs arbitrary: m0)
  case Nil
  then show ?case by simp
next
  case (Cons a trs)
  have "max (max l (m0 + base + 1)) (length a + base + 1) = max l (max m0 (length a) + base + 1)"
    by (simp add: max_def)
  then show ?case using Cons.IH[of "max m0 (length a)"] by simp
qed

lemma sh_rptr_len_longest:
  "trs \<noteq> [] \<Longrightarrow> sh_rptr_len base trs l = max l (longest trs + base + 1)"
proof (cases trs)
  case Nil
  moreover assume "trs \<noteq> []"
  ultimately show ?thesis by simp
next
  case (Cons a trs')
  show ?thesis
    using sh_rptr_len_fold[of base trs' l "length a"]
    by (simp add: Cons sh_rptr_len_def longest_def)
qed

lemma length_zero_pad: "length (zero_pad trs) = length trs"
  by (simp add: zero_pad_def)

lemma zero_pad_nth:
  "t < length trs \<Longrightarrow>
   zero_pad trs ! t = trs ! t @ replicate (longest trs - length (trs ! t)) 0"
  using length_le_longest[of "trs ! t" trs]
  by (simp add: zero_pad_def resize_def)

lemma cnt_zero_pad: "t < length trs \<Longrightarrow> cnt (zero_pad trs) j t = cnt trs j t"
  by (auto simp: cnt_def zero_pad_nth nth_append)

lemma rowsum_zero_pad: "rowsum (zero_pad trs) j = rowsum trs j"
  by (simp add: rowsum_def length_zero_pad cnt_zero_pad)

lemma sh_before_zero_pad: "sh_before (zero_pad trs) j 0 = sh_before trs j 0"
  by (simp add: sh_before_def rowsum_zero_pad)

lemma sh_offs_zero_pad: "sh_offs base J (zero_pad trs) rp = sh_offs base J trs rp"
  by (simp add: sh_offs_def sh_before_zero_pad)

lemma zero_pad_uniform: "\<forall>tr\<in>set (zero_pad trs). length tr = longest trs"
  by (simp add: zero_pad_def length_resize)

lemma sh_rptr_len_zero_pad: "sh_rptr_len base (zero_pad trs) l = sh_rptr_len base trs l"
proof (cases "trs = []")
  case True
  then show ?thesis by (simp add: zero_pad_def)
next
  case False
  then have "zero_pad trs \<noteq> []" by (simp add: zero_pad_def)
  then show ?thesis
    using False by (simp add: sh_rptr_len_uniform[OF zero_pad_uniform] sh_rptr_len_longest)
qed

lemma sh_rp1_zero_pad: "sh_rp1 (b\<lparr>thread_rptr := zero_pad (thread_rptr b)\<rparr>) = sh_rp1 b"
  by (simp add: sh_rp1_def sh_rptr_len_zero_pad)

lemma sh_rows_zero_pad: "sh_rows (b\<lparr>thread_rptr := zero_pad (thread_rptr b)\<rparr>) = sh_rows b"
  by (simp add: sh_rows_def sh_rp1_zero_pad)

lemma sh_thread_step_skip:
  assumes "length (trs ! tid) + base < 2 ^ 64" and "length (trs ! tid) + base \<le> i"
  shows "sh_thread_step base bk i tid (trs, count) = (trs, count)"
  using assms by (simp add: sh_thread_step_def sz_add_id)


section \<open>Prefix sums of the budgets\<close>

lemma sum_list_take_le: "sum_list (take k xs) \<le> sum_list (xs :: nat list)"
proof -
  have "sum_list xs = sum_list (take k xs) + sum_list (drop k xs)"
    by (metis append_take_drop_id sum_list_append)
  then show ?thesis by simp
qed

lemma sum_list_take_mono: "k \<le> k' \<Longrightarrow> sum_list (take k xs) \<le> sum_list (take k' (xs :: nat list))"
  using sum_list_take_le[of k "take k' xs"] by (simp add: min_absorb1)

lemma sum_list_concat_nat: "sum_list (concat xss) = sum_list (map sum_list (xss :: nat list list))"
  by (induction xss) simp_all

lemma sum_list_map_nth: "sum_list (map f xs) = (\<Sum>t<length xs. (f (xs ! t) :: nat))"
proof (induction xs rule: rev_induct)
  case Nil
  then show ?case by simp
next
  case (snoc x xs)
  then show ?case by (simp add: nth_append)
qed

lemma sum_cnt_take: "(\<Sum>j<k. cnt trs j t) = sum_list (take k (trs ! t))"
proof (induction k)
  case 0
  then show ?case by simp
next
  case (Suc k)
  show ?case
  proof (cases "k < length (trs ! t)")
    case True
    with Suc show ?thesis by (simp add: cnt_def take_Suc_conv_app_nth)
  next
    case False
    with Suc show ?thesis by (simp add: cnt_def)
  qed
qed

lemma sh_before_row_Suc: "sh_before trs (Suc k) 0 = sh_before trs k 0 + rowsum trs k"
  by (simp add: sh_before_def)

lemma sh_before_takes: "sh_before trs k 0 = (\<Sum>t<length trs. sum_list (take k (trs ! t)))"
proof (induction k)
  case 0
  then show ?case by (simp add: sh_before_def)
next
  case (Suc k)
  have "(\<Sum>t<length trs. sum_list (take (Suc k) (trs ! t)))
        = (\<Sum>t<length trs. sum_list (take k (trs ! t)) + cnt trs k t)"
    by (intro sum.cong refl) (metis sum_cnt_take sum.lessThan_Suc)
  then show ?case
    using Suc by (simp add: sh_before_row_Suc rowsum_def sum.distrib)
qed

lemma sh_before_le_total: "sh_before trs k 0 \<le> sum_list (concat trs)"
proof -
  have "sh_before trs k 0 \<le> (\<Sum>t<length trs. sum_list (trs ! t))"
    unfolding sh_before_takes by (intro sum_mono sum_list_take_le)
  then show ?thesis by (simp add: sum_list_concat_nat sum_list_map_nth)
qed

lemma sh_before_total:
  assumes "\<forall>tr\<in>set trs. length tr \<le> k"
  shows "sh_before trs k 0 = sum_list (concat trs)"
proof -
  have "(\<Sum>t<length trs. sum_list (take k (trs ! t))) = (\<Sum>t<length trs. sum_list (trs ! t))"
    using assms by (intro sum.cong refl) simp
  then show ?thesis by (simp add: sh_before_takes sum_list_concat_nat sum_list_map_nth)
qed

lemma sh_before_row_mono: "k \<le> k' \<Longrightarrow> sh_before trs k 0 \<le> sh_before trs k' 0"
  unfolding sh_before_takes by (intro sum_mono sum_list_take_mono)

lemma sorted_offsets:
  assumes srt: "sorted rp0" and len: "length rp0 \<le> base + 1"
    and nth: "\<forall>idx<length rp. rp ! idx = (if idx < length rp0 then rp0 ! idx
                                          else rptr_fill_value rp0 + F (idx - base))"
    and mono: "\<forall>a b. a \<le> b \<longrightarrow> F a \<le> (F b :: nat)"
  shows "sorted rp"
  unfolding sorted_iff_nth_mono
proof (intro allI impI)
  fix i j assume ij: "i \<le> j" and j: "j < length rp"
  then have i: "i < length rp" by simp
  consider "j < length rp0" | "i < length rp0" "length rp0 \<le> j" | "length rp0 \<le> i"
    using ij by linarith
  then show "rp ! i \<le> rp ! j"
  proof cases
    case 1
    then show ?thesis using nth i j ij srt by (simp add: sorted_nth_mono)
  next
    case 2
    then have ne: "rp0 \<noteq> []" by auto
    have "rp0 ! i \<le> last rp0"
      using 2 ne srt by (simp add: last_conv_nth sorted_nth_mono)
    then show ?thesis
      using nth i j 2 ne by (simp add: rptr_fill_value_def)
  next
    case 3
    then have "F (i - base) \<le> F (j - base)" using mono ij by simp
    then show ?thesis using nth i j 3 ij by simp
  qed
qed

lemma length_le_concat: "tr \<in> set trs \<Longrightarrow> length tr \<le> length (concat trs)"
  by (induction trs) auto

lemma fit_lens:
  assumes "length (concat trs) + base + 1 < 2 ^ 64"
  shows "\<forall>tr\<in>set trs. length tr + base + 1 < 2 ^ 64"
proof
  fix tr assume "tr \<in> set trs"
  from length_le_concat[OF this] assms show "length tr + base + 1 < 2 ^ 64" by simp
qed

lemma length_sh_rp1_rows:
  assumes "thread_rptr b \<noteq> []"
  shows "length (sh_rp1 b) = base_row_offset b + sh_rows b + 1"
proof -
  obtain tr where "tr \<in> set (thread_rptr b)" using assms by (cases "thread_rptr b") auto
  from sh_rp1_covers[OF this] show ?thesis by (simp add: sh_rows_def)
qed

lemma sh_rows_covers:
  "tr \<in> set (thread_rptr b) \<Longrightarrow> length tr \<le> sh_rows b"
  using sh_rp1_covers[of tr b] by (simp add: sh_rows_def)

lemma sh_rp1_nth:
  "idx < length (sh_rp1 b) \<Longrightarrow>
   sh_rp1 b ! idx = (if idx < length (rptr b) then rptr b ! idx else rptr_fill_value (rptr b))"
  by (auto simp: sh_rp1_def nth_append)

lemma rptr_at_base:
  assumes "length rp0 \<le> base + 1" and "base < length rp0"
  shows "rp0 ! base = rptr_fill_value rp0"
proof -
  have "length rp0 = base + 1" "rp0 \<noteq> []" using assms by auto
  then show ?thesis by (simp add: rptr_fill_value_def last_conv_nth)
qed

lemma sh_final_offs_nth:
  assumes ne: "thread_rptr b \<noteq> []" and len0: "length (rptr b) \<le> base_row_offset b + 1"
    and bound: "rptr_fill_value (rptr b) + sum_list (concat (thread_rptr b)) < 2 ^ 64"
    and idx: "idx < length (sh_rp1 b)"
  shows "sh_offs (base_row_offset b) (sh_rows b) (thread_rptr b) (sh_rp1 b) ! idx
         = (if idx < length (rptr b) then rptr b ! idx
            else rptr_fill_value (rptr b) + sh_before (thread_rptr b) (idx - base_row_offset b) 0)"
proof -
  let ?base = "base_row_offset b" and ?trs = "thread_rptr b" and ?fill = "rptr_fill_value (rptr b)"
  have small: "?fill + sh_before ?trs k 0 < 2 ^ 64" for k
    using sh_before_le_total[of ?trs k] bound by simp
  have zero: "sh_before ?trs 0 0 = 0" by (simp add: sh_before_def)
  show ?thesis
  proof (cases "?base < idx")
    case True
    then have "\<not> idx < length (rptr b)" using len0 by simp
    moreover have "idx \<le> ?base + sh_rows b"
      using idx length_sh_rp1_rows[OF ne] by simp
    ultimately show ?thesis
      using True idx small by (simp add: sh_offs_nth sh_rp1_nth wrap_id)
  next
    case False
    then have z: "idx - ?base = 0" by simp
    show ?thesis
      using False idx by (simp add: sh_offs_nth sh_rp1_nth z zero)
  qed
qed

lemma rm_rp1_nth:
  assumes "length (rptr b) \<le> base_row_offset b + 1" and "idx < length (rm_rp1 b)"
  shows "rm_rp1 b ! idx = (if idx < length (rptr b) then rptr b ! idx else rptr_fill_value (rptr b))"
  using assms by (auto simp: rm_rp1_def resize_def nth_append)

lemma rm_final_offs_nth:
  assumes len0: "length (rptr b) \<le> base_row_offset b + 1"
    and bound: "rptr_fill_value (rptr b) + sum_list (concat (thread_rptr b)) < 2 ^ 64"
    and idx: "idx < length (rm_rp1 b)"
  shows "rm_offs (base_row_offset b + 1) (length (concat (thread_rptr b)))
           (concat (thread_rptr b)) (rm_rp1 b) ! idx
         = (if idx < length (rptr b) then rptr b ! idx
            else rptr_fill_value (rptr b)
                 + sum_list (take (idx - base_row_offset b) (concat (thread_rptr b))))"
proof -
  let ?base = "base_row_offset b" and ?cs = "concat (thread_rptr b)"
    and ?fill = "rptr_fill_value (rptr b)"
  have small: "?fill + sum_list (take k ?cs) < 2 ^ 64" for k
    using sum_list_take_le[of k ?cs] bound by simp
  show ?thesis
  proof (cases "?base < idx")
    case True
    then have "\<not> idx < length (rptr b)" using len0 by simp
    moreover have "idx < ?base + 1 + length ?cs" "Suc (idx - Suc ?base) = idx - ?base"
      using idx True by (simp_all add: length_rm_rp1)
    ultimately show ?thesis
      using True idx small by (simp add: rm_offs_nth rm_rp1_nth[OF len0] wrap_id)
  next
    case False
    then have z: "idx - ?base = 0" by simp
    show ?thesis
      using False idx by (simp add: rm_offs_nth rm_rp1_nth[OF len0] z)
  qed
qed

lemma sizes_fitI:
  "length (concat (thread_rptr b)) + base_row_offset b + 1 < 2 ^ 64 \<Longrightarrow> sizes_fit rm b"
  using fit_lens[of "thread_rptr b" "base_row_offset b"] by (simp add: sizes_fit_def)

lemma prefix_total_mono: "k \<le> k' \<Longrightarrow> prefix_total rm trs k \<le> prefix_total rm trs k'"
  by (simp add: prefix_total_def sum_list_take_mono sh_before_row_mono)

lemma prefix_total_0: "prefix_total rm trs 0 = 0"
  by (simp add: prefix_total_def sh_before_def)

lemma prefix_total_le: "prefix_total rm trs k \<le> sum_list (concat trs)"
  by (simp add: prefix_total_def sum_list_take_le sh_before_le_total)

lemma prefix_total_all:
  "new_rows rm b \<le> k \<Longrightarrow> prefix_total rm (thread_rptr b) k = sum_list (concat (thread_rptr b))"
proof (cases rm)
  case True
  moreover assume "new_rows rm b \<le> k"
  ultimately show ?thesis by (simp add: prefix_total_def new_rows_def)
next
  case False
  moreover assume "new_rows rm b \<le> k"
  ultimately have "\<forall>tr\<in>set (thread_rptr b). length tr \<le> k"
    using sh_rows_covers[of _ b] by (auto simp: new_rows_def intro: order_trans)
  with False show ?thesis by (simp add: prefix_total_def sh_before_total)
qed

text \<open>What \<^verbatim>\<open>InitStorage\<close> returns, for a builder whose sizes and totals fit 64 bits.\<close>

lemma InitStorage_result:
  assumes ne: "thread_rptr b \<noteq> []" and len0: "length (rptr b) \<le> base_row_offset b + 1"
    and fit: "sizes_fit rm b"
    and bound: "rptr_fill_value (rptr b) + sum_list (concat (thread_rptr b)) < 2 ^ 64"
  shows "\<exists>rp2 trs2. InitStorage rm dv b
            = Some (b\<lparr>rptr := rp2, thread_rptr := trs2, data := resize (data b) (last rp2) dv\<rparr>)
          \<and> length rp2 = base_row_offset b + new_rows rm b + 1
          \<and> (\<forall>idx<length rp2. rp2 ! idx =
                (if idx < length (rptr b) then rptr b ! idx
                 else rptr_fill_value (rptr b)
                      + prefix_total rm (thread_rptr b) (idx - base_row_offset b)))
          \<and> trs2 = (if rm then rm_cells (rptr_fill_value (rptr b)) (thread_rptr b)
                     else sh_part (rptr_fill_value (rptr b)) (sh_rows b) 0 (thread_rptr b))"
proof (cases rm)
  case True
  let ?rp2 = "rm_offs (base_row_offset b + 1) (length (concat (thread_rptr b)))
                (concat (thread_rptr b)) (rm_rp1 b)"
  have "InitStorage rm dv b
        = Some (b\<lparr>rptr := ?rp2, thread_rptr := rm_cells (rptr_fill_value (rptr b)) (thread_rptr b),
                  data := resize (data b) (last ?rp2) dv\<rparr>)"
    using True fit InitStorage_partitioned[of b dv] by (simp add: sizes_fit_def)
  moreover have "length ?rp2 = base_row_offset b + new_rows rm b + 1"
    using True by (simp add: length_rm_offs length_rm_rp1 new_rows_def)
  moreover have "\<forall>idx<length ?rp2. ?rp2 ! idx =
                (if idx < length (rptr b) then rptr b ! idx
                 else rptr_fill_value (rptr b)
                      + prefix_total rm (thread_rptr b) (idx - base_row_offset b))"
    using True rm_final_offs_nth[OF len0 bound]
    by (simp add: length_rm_offs prefix_total_def)
  ultimately show ?thesis using True by auto
next
  case False
  let ?rp2 = "sh_offs (base_row_offset b) (sh_rows b) (thread_rptr b) (sh_rp1 b)"
  have "InitStorage rm dv b
        = Some (b\<lparr>rptr := ?rp2,
                  thread_rptr := sh_part (rptr_fill_value (rptr b)) (sh_rows b) 0 (thread_rptr b),
                  data := resize (data b) (last ?rp2) dv\<rparr>)"
    using False fit InitStorage_shared[OF _ ne, of dv] by (simp add: sizes_fit_def)
  moreover have "length ?rp2 = base_row_offset b + new_rows rm b + 1"
    using False by (simp add: length_sh_offs length_sh_rp1_rows[OF ne] new_rows_def)
  moreover have "\<forall>idx<length ?rp2. ?rp2 ! idx =
                (if idx < length (rptr b) then rptr b ! idx
                 else rptr_fill_value (rptr b)
                      + prefix_total rm (thread_rptr b) (idx - base_row_offset b))"
    using False sh_final_offs_nth[OF ne len0 bound]
    by (simp add: length_sh_offs prefix_total_def)
  ultimately show ?thesis using False by auto
qed


section \<open>The regions reserved by InitStorage\<close>

lemma sum_lessThan_mono: "(a::nat) \<le> b \<Longrightarrow> (\<Sum>x<a. f x) \<le> (\<Sum>x<b. (f x :: nat))"
  by (intro sum_mono2) auto

lemma sh_before_thread_mono: "t \<le> t' \<Longrightarrow> sh_before trs j t \<le> sh_before trs j t'"
  by (simp add: sh_before_def sum_lessThan_mono)

lemma sh_before_cell_end:
  "t < length trs \<Longrightarrow> sh_before trs j t + cnt trs j t \<le> sh_before trs (Suc j) 0"
  using sh_before_thread_mono[of "Suc t" "length trs" trs j]
  by (simp add: sh_before_Suc sh_before_row_end)

lemma sh_before_order:
  assumes "j < j' \<or> (j = j' \<and> t < t')" and "t < length trs"
  shows "sh_before trs j t + cnt trs j t \<le> sh_before trs j' t'"
proof (cases "j < j'")
  case True
  have "sh_before trs j t + cnt trs j t \<le> sh_before trs (Suc j) 0"
    by (rule sh_before_cell_end[OF assms(2)])
  also have "\<dots> \<le> sh_before trs j' 0"
    using True by (intro sh_before_row_mono) simp
  also have "\<dots> \<le> sh_before trs j' t'"
    by (intro sh_before_thread_mono) simp
  finally show ?thesis .
next
  case False
  with assms(1) have "j = j'" "Suc t \<le> t'" by auto
  then show ?thesis
    using sh_before_thread_mono[of "Suc t" t' trs j] by (simp add: sh_before_Suc)
qed

lemma sum_concat_take_mono:
  "a \<le> b \<Longrightarrow> sum_list (concat (take a trs)) \<le> sum_list (concat (take b (trs :: nat list list)))"
proof -
  assume "a \<le> b"
  then have "take b trs = take a trs @ take (b - a) (drop a trs)"
    by (metis le_add_diff_inverse take_add)
  then show ?thesis by simp
qed

lemma sum_concat_take_le:
  "sum_list (concat (take a trs)) \<le> sum_list (concat (trs :: nat list list))"
  using sum_concat_take_mono[of a "max a (length trs)" trs] by simp

lemma rm_before_cell_end:
  assumes "t < length trs" and "j < length (trs ! t)"
  shows "rm_before trs t j + trs ! t ! j \<le> sum_list (concat (take (Suc t) trs))"
proof -
  have "sum_list (take j (trs ! t)) + trs ! t ! j = sum_list (take (Suc j) (trs ! t))"
    using assms(2) by (simp add: take_Suc_conv_app_nth)
  also have "\<dots> \<le> sum_list (trs ! t)" by (rule sum_list_take_le)
  finally show ?thesis
    using assms(1) by (simp add: rm_before_def concat_take_Suc del: take_Suc)
qed

lemma rm_before_order:
  assumes "t < t' \<or> (t = t' \<and> j < j')" and "t < length trs" and "j < length (trs ! t)"
  shows "rm_before trs t j + trs ! t ! j \<le> rm_before trs t' j'"
proof (cases "t < t'")
  case True
  have "rm_before trs t j + trs ! t ! j \<le> sum_list (concat (take (Suc t) trs))"
    by (rule rm_before_cell_end[OF assms(2,3)])
  also have "\<dots> \<le> sum_list (concat (take t' trs))"
    using True by (intro sum_concat_take_mono) simp
  also have "\<dots> \<le> rm_before trs t' j'" by (simp add: rm_before_def)
  finally show ?thesis .
next
  case False
  with assms(1) have eq: "t = t'" and jj: "Suc j \<le> j'" by auto
  have "sum_list (take j (trs ! t)) + trs ! t ! j = sum_list (take (Suc j) (trs ! t))"
    using assms(3) by (simp add: take_Suc_conv_app_nth)
  also have "\<dots> \<le> sum_list (take j' (trs ! t))"
    using jj by (rule sum_list_take_mono)
  finally show ?thesis by (simp add: rm_before_def eq del: take_Suc)
qed

lemma before_end:
  assumes "t < length trs" and "j < length (trs ! t)"
  shows "before rm trs t j + trs ! t ! j \<le> sum_list (concat trs)"
proof (cases rm)
  case True
  have "rm_before trs t j + trs ! t ! j \<le> sum_list (concat (take (Suc t) trs))"
    by (rule rm_before_cell_end[OF assms])
  also have "\<dots> \<le> sum_list (concat trs)" by (rule sum_concat_take_le)
  finally show ?thesis using True by (simp add: before_def)
next
  case False
  have "sh_before trs j t + cnt trs j t \<le> sh_before trs (Suc j) 0"
    by (rule sh_before_cell_end[OF assms(1)])
  also have "\<dots> \<le> sum_list (concat trs)" by (rule sh_before_le_total)
  finally show ?thesis using False assms by (simp add: before_def cnt_def)
qed

lemma before_disjoint:
  assumes "t < length trs" and "j < length (trs ! t)"
    and "t' < length trs" and "j' < length (trs ! t')"
    and "(t, j) \<noteq> (t', j')"
  shows "before rm trs t j + trs ! t ! j \<le> before rm trs t' j'
         \<or> before rm trs t' j' + trs ! t' ! j' \<le> before rm trs t j"
proof (cases rm)
  case True
  from assms(5) consider "t < t' \<or> (t = t' \<and> j < j')" | "t' < t \<or> (t' = t \<and> j' < j)"
    by (cases "t = t'") (auto simp: nat_neq_iff)
  then show ?thesis
  proof cases
    case 1
    from rm_before_order[OF 1 assms(1,2)] True show ?thesis by (simp add: before_def)
  next
    case 2
    from rm_before_order[OF 2 assms(3,4)] True show ?thesis by (simp add: before_def)
  qed
next
  case False
  from assms(5) consider "j < j' \<or> (j = j' \<and> t < t')" | "j' < j \<or> (j' = j \<and> t' < t)"
    by (cases "j = j'") (auto simp: nat_neq_iff)
  then show ?thesis
  proof cases
    case 1
    from sh_before_order[OF 1 assms(1)] False assms(2) show ?thesis
      by (simp add: before_def cnt_def)
  next
    case 2
    from sh_before_order[OF 2 assms(3)] False assms(4) show ?thesis
      by (simp add: before_def cnt_def)
  qed
qed

lemma InitStorage_cursor:
  assumes ne: "thread_rptr b \<noteq> []" and len0: "length (rptr b) \<le> base_row_offset b + 1"
    and fit: "sizes_fit rm b"
    and bound: "rptr_fill_value (rptr b) + sum_list (concat (thread_rptr b)) < 2 ^ 64"
    and res: "InitStorage rm dv b = Some b'"
  shows "length (thread_rptr b') = length (thread_rptr b)"
    and "t < length (thread_rptr b) \<Longrightarrow> length (thread_rptr b' ! t) = length (thread_rptr b ! t)"
    and "t < length (thread_rptr b) \<Longrightarrow> j < length (thread_rptr b ! t) \<Longrightarrow>
         thread_rptr b' ! t ! j = rptr_fill_value (rptr b) + before rm (thread_rptr b) t j"
proof -
  let ?trs = "thread_rptr b" and ?fill = "rptr_fill_value (rptr b)"
  from InitStorage_result[OF ne len0 fit bound, of dv] res
  have trs2: "thread_rptr b' = (if rm then rm_cells ?fill ?trs
                              else sh_part ?fill (sh_rows b) 0 ?trs)"
    by auto
  show "length (thread_rptr b') = length ?trs"
    by (simp add: trs2 rm_cells_def length_sh_part)
  show "length (thread_rptr b' ! t) = length (?trs ! t)" if "t < length ?trs"
    using that by (simp add: trs2 rm_cells_def length_sh_part_nth)
  show "thread_rptr b' ! t ! j = ?fill + before rm ?trs t j"
    if t: "t < length ?trs" and j: "j < length (?trs ! t)"
  proof -
    have "?fill + before rm ?trs t j < 2 ^ 64"
      using before_end[OF t j, of rm] bound by simp
    moreover have "j < sh_rows b"
      using sh_rows_covers[of "?trs ! t" b] t j by simp
    ultimately show ?thesis
      using t j by (cases rm) (simp_all add: trs2 rm_cells_def sh_part_nth_nth before_def wrap_id)
  qed
qed

section \<open>The push phase\<close>

lemma pushes_append:
  "pushes rm (ps @ qs) b = Option.bind (pushes rm ps b) (pushes rm qs)"
  by (induction ps arbitrary: b) (auto split: option.splits)

lemma cell_vals_upd [simp]:
  "cell_vals rm (b\<lparr>data := D, thread_rptr := C\<rparr>) = cell_vals rm b"
  by (intro ext) (simp add: cell_vals_def)

lemma cell_vals_Nil: "cell_vals rm b [] t j = []"
  by (simp add: cell_vals_def)

lemma cell_vals_snoc:
  "cell_vals rm b (ps @ [(k, t0, v)]) t j =
     cell_vals rm b ps t j @ (if t0 = t \<and> offset_key rm b k t0 = j then [v] else [])"
  by (auto simp: cell_vals_def)

lemma pushed_Nil: "pushed rm b [] (data b) (thread_rptr b)"
  by (simp add: pushed_def cell_vals_Nil)

lemma Push_in_cell:
  assumes "t < length (thread_rptr b)" and "offset_key rm b k t < length (thread_rptr b ! t)"
    and "thread_rptr b ! t ! offset_key rm b k t < length (data b)"
  shows "Push rm k v t b =
           Some (b\<lparr>data := (data b)[thread_rptr b ! t ! offset_key rm b k t := v],
                   thread_rptr := (thread_rptr b)
                     [t := (thread_rptr b ! t)
                        [offset_key rm b k t :=
                           sz_add (thread_rptr b ! t ! offset_key rm b k t) 1]]\<rparr>)"
  using assms by (simp add: Push_def Let_def)


lemma pushed_step:
  assumes reg: "regions_ok (thread_rptr b) bud (length (data b))"
    and lim: "length (data b) < 2 ^ 64"
    and t0: "t0 < length (thread_rptr b)"
    and j0: "offset_key rm b k t0 < length (thread_rptr b ! t0)"
    and wb: "within_budget rm b (ps @ [(k, t0, v)]) bud"
    and P: "pushed rm b ps D C"
  shows "\<exists>D' C'. Push rm k v t0 (b\<lparr>data := D, thread_rptr := C\<rparr>)
                    = Some (b\<lparr>data := D', thread_rptr := C'\<rparr>)
               \<and> pushed rm b (ps @ [(k, t0, v)]) D' C'
               \<and> C ! t0 ! offset_key rm b k t0
                   = thread_rptr b ! t0 ! offset_key rm b k t0
                     + length (cell_vals rm b ps t0 (offset_key rm b k t0))
               \<and> C ! t0 ! offset_key rm b k t0 \<notin> written rm b ps"
proof -
  let ?c0 = "thread_rptr b" and ?j0 = "offset_key rm b k t0"
  let ?qs = "ps @ [(k, t0, v)]"
  let ?n0 = "length (cell_vals rm b ps t0 ?j0)"
  let ?rp = "?c0 ! t0 ! ?j0 + ?n0"
  have lenD: "length D = length (data b)" and lenC: "length C = length ?c0"
    and shape: "\<And>t. t < length ?c0 \<Longrightarrow> length (C ! t) = length (?c0 ! t)"
    and cur: "\<And>t j. t < length ?c0 \<Longrightarrow> j < length (?c0 ! t) \<Longrightarrow>
                C ! t ! j = ?c0 ! t ! j + length (cell_vals rm b ps t j)"
    and vals: "\<And>t j i. t < length ?c0 \<Longrightarrow> j < length (?c0 ! t) \<Longrightarrow>
                i < length (cell_vals rm b ps t j) \<Longrightarrow>
                D ! (?c0 ! t ! j + i) = cell_vals rm b ps t j ! i"
    and frame: "\<And>p. (\<forall>t<length ?c0. \<forall>j<length (?c0 ! t).
                  p < ?c0 ! t ! j \<or> ?c0 ! t ! j + length (cell_vals rm b ps t j) \<le> p)
                \<Longrightarrow> D ! p = data b ! p"
    using P unfolding pushed_def by auto
  have bud_le: "\<And>t j. t < length ?c0 \<Longrightarrow> j < length (?c0 ! t) \<Longrightarrow>
                  length (cell_vals rm b ?qs t j) \<le> bud ! t ! j"
    using wb unfolding within_budget_def by auto
  have lim_cell: "\<And>t j. t < length ?c0 \<Longrightarrow> j < length (?c0 ! t) \<Longrightarrow>
                  ?c0 ! t ! j + bud ! t ! j \<le> length (data b)"
    using reg unfolding regions_ok_def by auto
  have disj: "\<And>t j t' j'. t < length ?c0 \<Longrightarrow> j < length (?c0 ! t) \<Longrightarrow>
                t' < length ?c0 \<Longrightarrow> j' < length (?c0 ! t') \<Longrightarrow> (t, j) \<noteq> (t', j') \<Longrightarrow>
                ?c0 ! t ! j + bud ! t ! j \<le> ?c0 ! t' ! j' \<or>
                ?c0 ! t' ! j' + bud ! t' ! j' \<le> ?c0 ! t ! j"
    using reg unfolding regions_ok_def by blast
  have n0: "?n0 + 1 \<le> bud ! t0 ! ?j0"
    using bud_le[OF t0 j0] by (simp add: cell_vals_snoc)
  have rp_lt: "?rp < length D"
    using lim_cell[OF t0 j0] n0 lenD by simp
  have rp1: "sz_add ?rp 1 = ?rp + 1"
    using rp_lt lenD lim by (simp add: sz_add_id)
  have Crp: "C ! t0 ! ?j0 = ?rp" by (rule cur[OF t0 j0])
  let ?D' = "D[?rp := v]" and ?C' = "C[t0 := (C ! t0)[?j0 := ?rp + 1]]"
  have push: "Push rm k v t0 (b\<lparr>data := D, thread_rptr := C\<rparr>)
              = Some (b\<lparr>data := ?D', thread_rptr := ?C'\<rparr>)"
    using Push_in_cell[of t0 "b\<lparr>data := D, thread_rptr := C\<rparr>" rm k v]
      t0 j0 lenC shape[OF t0] Crp rp_lt rp1
    by simp
  have other: "?rp \<noteq> ?c0 ! t ! j + i"
    if t: "t < length ?c0" and j: "j < length (?c0 ! t)" and ne: "(t, j) \<noteq> (t0, ?j0)"
      and i: "i < length (cell_vals rm b ?qs t j)" for t j i
    using disj[OF t j t0 j0 ne] bud_le[OF t j] i n0 by linarith
  have cell: "?C' ! t ! j = ?c0 ! t ! j + length (cell_vals rm b ?qs t j) \<and>
              (\<forall>i<length (cell_vals rm b ?qs t j).
                 ?D' ! (?c0 ! t ! j + i) = cell_vals rm b ?qs t j ! i)"
    if t: "t < length ?c0" and j: "j < length (?c0 ! t)" for t j
  proof (cases "(t, j) = (t0, ?j0)")
    case True
    then have eq: "t = t0" "j = ?j0" by simp_all
    have "?C' ! t0 ! ?j0 = ?rp + 1"
      using t0 j0 lenC shape[OF t0] by simp
    moreover have "?D' ! (?c0 ! t0 ! ?j0 + i) = (cell_vals rm b ps t0 ?j0 @ [v]) ! i"
      if "i < ?n0 + 1" for i
    proof (cases "i = ?n0")
      case True
      then show ?thesis using rp_lt by simp
    next
      case False
      with that have "i < ?n0" by simp
      then show ?thesis using vals[OF t0 j0] by (simp add: nth_append)
    qed
    ultimately show ?thesis by (simp add: eq cell_vals_snoc)
  next
    case False
    then have cv: "cell_vals rm b ?qs t j = cell_vals rm b ps t j"
      by (auto simp: cell_vals_snoc)
    have "?C' ! t ! j = C ! t ! j"
      using False t0 lenC by (cases "t = t0") (auto simp: nth_list_update)
    moreover have "?D' ! (?c0 ! t ! j + i) = D ! (?c0 ! t ! j + i)"
      if "i < length (cell_vals rm b ?qs t j)" for i
      using other[OF t j False that] by simp
    ultimately show ?thesis
      using cur[OF t j] vals[OF t j] by (simp add: cv)
  qed
  have frame': "?D' ! p = data b ! p"
    if out: "\<forall>t<length ?c0. \<forall>j<length (?c0 ! t).
               p < ?c0 ! t ! j \<or> ?c0 ! t ! j + length (cell_vals rm b ?qs t j) \<le> p" for p
  proof -
    have "p < ?c0 ! t0 ! ?j0 \<or> ?c0 ! t0 ! ?j0 + length (cell_vals rm b ?qs t0 ?j0) \<le> p"
      using out t0 j0 by blast
    then have "p \<noteq> ?rp"
      by (auto simp: cell_vals_snoc)
    moreover have "\<forall>t<length ?c0. \<forall>j<length (?c0 ! t).
               p < ?c0 ! t ! j \<or> ?c0 ! t ! j + length (cell_vals rm b ps t j) \<le> p"
    proof (intro allI impI)
      fix t j assume t: "t < length ?c0" and j: "j < length (?c0 ! t)"
      have "length (cell_vals rm b ps t j) \<le> length (cell_vals rm b ?qs t j)"
        by (simp add: cell_vals_snoc)
      moreover have "p < ?c0 ! t ! j \<or> ?c0 ! t ! j + length (cell_vals rm b ?qs t j) \<le> p"
        using out t j by blast
      ultimately show "p < ?c0 ! t ! j \<or> ?c0 ! t ! j + length (cell_vals rm b ps t j) \<le> p"
        by linarith
    qed
    ultimately show ?thesis using frame by simp
  qed
  have "pushed rm b ?qs ?D' ?C'"
    unfolding pushed_def
  proof (intro conjI allI impI)
    show "length ?D' = length (data b)" using lenD by simp
    show "length ?C' = length ?c0" using lenC by simp
    show "length (?C' ! t) = length (?c0 ! t)" if "t < length ?c0" for t
      using that shape lenC by (cases "t = t0") (simp_all add: nth_list_update)
    show "?C' ! t ! j = ?c0 ! t ! j + length (cell_vals rm b ?qs t j)"
      if "t < length ?c0" "j < length (?c0 ! t)" for t j
      using cell[OF that] by simp
    show "?D' ! (?c0 ! t ! j + i) = cell_vals rm b ?qs t j ! i"
      if "t < length ?c0" "j < length (?c0 ! t)" "i < length (cell_vals rm b ?qs t j)" for t j i
      using cell[OF that(1,2)] that(3) by simp
    show "?D' ! p = data b ! p"
      if "\<forall>t<length ?c0. \<forall>j<length (?c0 ! t).
               p < ?c0 ! t ! j \<or> ?c0 ! t ! j + length (cell_vals rm b ?qs t j) \<le> p" for p
      using frame'[OF that] .
  qed
  moreover have "?rp \<notin> written rm b ps"
  proof
    assume "?rp \<in> written rm b ps"
    then obtain t j i where t: "t < length ?c0" and j: "j < length (?c0 ! t)"
      and i: "i < length (cell_vals rm b ps t j)" and eq: "?rp = ?c0 ! t ! j + i"
      unfolding written_def by blast
    show False
    proof (cases "(t, j) = (t0, ?j0)")
      case True
      with i eq show False by simp
    next
      case False
      have "i < length (cell_vals rm b ?qs t j)" using i by (simp add: cell_vals_snoc)
      from other[OF t j False this] eq show False by simp
    qed
  qed
  ultimately show ?thesis using push Crp by auto
qed


lemma written_Nil: "written rm b [] = {}"
  by (simp add: written_def cell_vals_Nil)

lemma written_snoc:
  assumes "t0 < length (thread_rptr b)" and "offset_key rm b k t0 < length (thread_rptr b ! t0)"
  shows "written rm b (ps @ [(k, t0, v)])
         = insert (thread_rptr b ! t0 ! offset_key rm b k t0
                   + length (cell_vals rm b ps t0 (offset_key rm b k t0)))
             (written rm b ps)"
proof (intro set_eqI iffI)
  fix p assume "p \<in> written rm b (ps @ [(k, t0, v)])"
  then obtain t j i where t: "t < length (thread_rptr b)" and j: "j < length (thread_rptr b ! t)"
    and i: "i < length (cell_vals rm b (ps @ [(k, t0, v)]) t j)"
    and eq: "p = thread_rptr b ! t ! j + i"
    unfolding written_def by blast
  show "p \<in> insert (thread_rptr b ! t0 ! offset_key rm b k t0
                   + length (cell_vals rm b ps t0 (offset_key rm b k t0))) (written rm b ps)"
  proof (cases "i < length (cell_vals rm b ps t j)")
    case True
    with t j eq show ?thesis unfolding written_def by blast
  next
    case False
    with i have "t0 = t" "offset_key rm b k t0 = j" "i = length (cell_vals rm b ps t j)"
      by (auto simp: cell_vals_snoc split: if_splits)
    with eq show ?thesis by simp
  qed
next
  fix p assume "p \<in> insert (thread_rptr b ! t0 ! offset_key rm b k t0
                   + length (cell_vals rm b ps t0 (offset_key rm b k t0))) (written rm b ps)"
  then consider "p = thread_rptr b ! t0 ! offset_key rm b k t0
                   + length (cell_vals rm b ps t0 (offset_key rm b k t0))"
    | "p \<in> written rm b ps" by blast
  then show "p \<in> written rm b (ps @ [(k, t0, v)])"
  proof cases
    case 1
    have "length (cell_vals rm b ps t0 (offset_key rm b k t0))
          < length (cell_vals rm b (ps @ [(k, t0, v)]) t0 (offset_key rm b k t0))"
      by (simp add: cell_vals_snoc)
    with 1 assms show ?thesis unfolding written_def by blast
  next
    case 2
    then obtain t j i where t: "t < length (thread_rptr b)" and j: "j < length (thread_rptr b ! t)"
      and i: "i < length (cell_vals rm b ps t j)" and eq: "p = thread_rptr b ! t ! j + i"
      unfolding written_def by blast
    have "i < length (cell_vals rm b (ps @ [(k, t0, v)]) t j)"
      using i by (simp add: cell_vals_snoc)
    with t j eq show ?thesis unfolding written_def by blast
  qed
qed

lemma push_slots_append:
  "pushes rm ps b = Some b1 \<Longrightarrow>
   push_slots rm (ps @ qs) b = push_slots rm ps b @ push_slots rm qs b1"
  by (induction ps arbitrary: b) (auto split: option.splits)

lemma in_cells_append:
  "in_cells rm b (ps @ qs) \<longleftrightarrow> in_cells rm b ps \<and> in_cells rm b qs"
  by (simp add: in_cells_def ball_Un)

lemma within_budget_prefix:
  "within_budget rm b (ps @ qs) bud \<Longrightarrow> within_budget rm b ps bud"
  unfolding within_budget_def
proof (intro allI impI)
  fix t j
  assume a: "\<forall>t<length (thread_rptr b). \<forall>j<length (thread_rptr b ! t).
               length (cell_vals rm b (ps @ qs) t j) \<le> bud ! t ! j"
    and t: "t < length (thread_rptr b)" and j: "j < length (thread_rptr b ! t)"
  have "length (cell_vals rm b ps t j) \<le> length (cell_vals rm b (ps @ qs) t j)"
    by (simp add: cell_vals_def)
  also have "\<dots> \<le> bud ! t ! j" using a t j by blast
  finally show "length (cell_vals rm b ps t j) \<le> bud ! t ! j" .
qed

lemma pushes_closed:
  assumes reg: "regions_ok (thread_rptr b) bud (length (data b))"
    and lim: "length (data b) < 2 ^ 64"
    and ic: "in_cells rm b ps"
    and wb: "within_budget rm b ps bud"
  shows "\<exists>D C. pushes rm ps b = Some (b\<lparr>data := D, thread_rptr := C\<rparr>)
           \<and> pushed rm b ps D C
           \<and> distinct (push_slots rm ps b)
           \<and> set (push_slots rm ps b) = written rm b ps"
  using ic wb
proof (induction ps rule: rev_induct)
  case Nil
  show ?case
    by (intro exI[of _ "data b"] exI[of _ "thread_rptr b"]) (simp add: pushed_Nil written_Nil)
next
  case (snoc x ps)
  obtain k t0 v where x: "x = (k, t0, v)" by (cases x) auto
  have ic': "in_cells rm b ps" and wb': "within_budget rm b ps bud"
    using snoc.prems within_budget_prefix by (auto simp: in_cells_append)
  have t0: "t0 < length (thread_rptr b)"
    and j0: "offset_key rm b k t0 < length (thread_rptr b ! t0)"
    using snoc.prems(1) by (auto simp: in_cells_def x)
  from snoc.IH[OF ic' wb'] obtain D C where
    run: "pushes rm ps b = Some (b\<lparr>data := D, thread_rptr := C\<rparr>)"
    and P: "pushed rm b ps D C"
    and dist: "distinct (push_slots rm ps b)"
    and slots: "set (push_slots rm ps b) = written rm b ps"
    by blast
  let ?b1 = "b\<lparr>data := D, thread_rptr := C\<rparr>"
  from pushed_step[OF reg lim t0 j0 snoc.prems(2)[unfolded x] P] obtain D' C' where
    push: "Push rm k v t0 ?b1 = Some (b\<lparr>data := D', thread_rptr := C'\<rparr>)"
    and P': "pushed rm b (ps @ [(k, t0, v)]) D' C'"
    and slot: "C ! t0 ! offset_key rm b k t0
                = thread_rptr b ! t0 ! offset_key rm b k t0
                  + length (cell_vals rm b ps t0 (offset_key rm b k t0))"
    and fresh: "C ! t0 ! offset_key rm b k t0 \<notin> written rm b ps"
    by blast
  have run': "pushes rm (ps @ [x]) b = Some (b\<lparr>data := D', thread_rptr := C'\<rparr>)"
    using run push by (simp add: pushes_append x)
  have sl: "push_slots rm (ps @ [x]) b = push_slots rm ps b @ [C ! t0 ! offset_key rm b k t0]"
    using push by (simp add: push_slots_append[OF run] x)
  have "distinct (push_slots rm (ps @ [x]) b)"
    unfolding sl using dist fresh slots by simp
  moreover have "set (push_slots rm (ps @ [x]) b) = written rm b (ps @ [x])"
    unfolding sl using slots slot by (simp add: x written_snoc[OF t0 j0])
  ultimately show ?case using run' P' x by blast
qed

lemma InitStorage_total:
  assumes ne: "thread_rptr b \<noteq> []" and len0: "length (rptr b) \<le> base_row_offset b + 1"
    and fit: "sizes_fit rm b"
    and bound: "rptr_fill_value (rptr b) + sum_list (concat (thread_rptr b)) < 2 ^ 64"
    and res: "InitStorage rm dv b = Some b'"
  shows "last (rptr b') = rptr_fill_value (rptr b) + sum_list (concat (thread_rptr b))"
    and "data b' = resize (data b) (rptr_fill_value (rptr b) + sum_list (concat (thread_rptr b))) dv"
    and "base_row_offset b' = base_row_offset b"
    and "thread_displacement b' = thread_displacement b"
    and "length (rptr b') = base_row_offset b + new_rows rm b + 1"
    and "\<And>idx. idx < length (rptr b') \<Longrightarrow> rptr b' ! idx =
                (if idx < length (rptr b) then rptr b ! idx
                 else rptr_fill_value (rptr b)
                      + prefix_total rm (thread_rptr b) (idx - base_row_offset b))"
proof -
  let ?base = "base_row_offset b" and ?fill = "rptr_fill_value (rptr b)"
  from InitStorage_result[OF ne len0 fit bound, of dv]
  obtain rp2 trs2 where
    res': "InitStorage rm dv b
            = Some (b\<lparr>rptr := rp2, thread_rptr := trs2, data := resize (data b) (last rp2) dv\<rparr>)"
    and len: "length rp2 = ?base + new_rows rm b + 1"
    and nth: "\<forall>idx<length rp2. rp2 ! idx =
                (if idx < length (rptr b) then rptr b ! idx
                 else ?fill + prefix_total rm (thread_rptr b) (idx - ?base))"
    by blast
  have b': "b' = b\<lparr>rptr := rp2, thread_rptr := trs2, data := resize (data b) (last rp2) dv\<rparr>"
    using res res' by simp
  have last: "last rp2 = ?fill + sum_list (concat (thread_rptr b))"
  proof -
    have "rp2 \<noteq> []" using len by auto
    then have l: "last rp2 = rp2 ! (?base + new_rows rm b)"
      using len by (simp add: last_conv_nth)
    show ?thesis
    proof (cases "?base + new_rows rm b < length (rptr b)")
      case True
      then have z: "new_rows rm b = 0" and bl: "?base < length (rptr b)" using len0 by simp_all
      have "prefix_total rm (thread_rptr b) 0 = sum_list (concat (thread_rptr b))"
        using z by (intro prefix_total_all) simp
      then have "sum_list (concat (thread_rptr b)) = 0" by (simp add: prefix_total_0)
      then show ?thesis
        using l nth len True z rptr_at_base[OF len0 bl] by simp
    next
      case False
      then show ?thesis
        using l nth len by (simp add: prefix_total_all)
    qed
  qed
  show "last (rptr b') = ?fill + sum_list (concat (thread_rptr b))"
    using last by (simp add: b')
  show "data b' = resize (data b) (?fill + sum_list (concat (thread_rptr b))) dv"
    using last by (simp add: b')
  show "base_row_offset b' = ?base" "thread_displacement b' = thread_displacement b"
    by (simp_all add: b')
  show "length (rptr b') = ?base + new_rows rm b + 1" using len by (simp add: b')
  show "rptr b' ! idx = (if idx < length (rptr b) then rptr b ! idx
                 else ?fill + prefix_total rm (thread_rptr b) (idx - ?base))"
    if "idx < length (rptr b')" for idx
    using that nth by (simp add: b')
qed

lemma InitStorage_Some:
  assumes "thread_rptr b \<noteq> []" and "length (rptr b) \<le> base_row_offset b + 1"
    and "sizes_fit rm b"
    and "rptr_fill_value (rptr b) + sum_list (concat (thread_rptr b)) < 2 ^ 64"
  shows "\<exists>b'. InitStorage rm dv b = Some b'"
  using InitStorage_result[OF assms, of dv] by blast

lemma InitStorage_regions:
  assumes ne: "thread_rptr b \<noteq> []" and len0: "length (rptr b) \<le> base_row_offset b + 1"
    and fit: "sizes_fit rm b"
    and bound: "rptr_fill_value (rptr b) + sum_list (concat (thread_rptr b)) < 2 ^ 64"
    and res: "InitStorage rm dv b = Some b'"
  shows "regions_ok (thread_rptr b') (thread_rptr b) (length (data b'))"
proof -
  let ?trs = "thread_rptr b" and ?fill = "rptr_fill_value (rptr b)"
  note cur = InitStorage_cursor[OF ne len0 fit bound res]
  have lenD: "length (data b') = ?fill + sum_list (concat ?trs)"
    by (simp add: InitStorage_total(2)[OF ne len0 fit bound res] length_resize)
  show ?thesis
    unfolding regions_ok_def
  proof (intro conjI allI impI)
    show "length ?trs = length (thread_rptr b')" by (simp add: cur(1))
    show "length (?trs ! t) = length (thread_rptr b' ! t)" if "t < length (thread_rptr b')" for t
      using that by (simp add: cur(1) cur(2))
    show "thread_rptr b' ! t ! j + ?trs ! t ! j \<le> length (data b')"
      if "t < length (thread_rptr b')" "j < length (thread_rptr b' ! t)" for t j
    proof -
      have t: "t < length ?trs" and j: "j < length (?trs ! t)"
        using that by (simp_all add: cur(1) cur(2))
      show ?thesis
        using before_end[OF t j, of rm] by (simp add: cur(3)[OF t j] lenD)
    qed
    show "thread_rptr b' ! t ! j + ?trs ! t ! j \<le> thread_rptr b' ! t' ! j'
          \<or> thread_rptr b' ! t' ! j' + ?trs ! t' ! j' \<le> thread_rptr b' ! t ! j"
      if "t < length (thread_rptr b')" "j < length (thread_rptr b' ! t)"
         "t' < length (thread_rptr b')" "j' < length (thread_rptr b' ! t')"
         "(t, j) \<noteq> (t', j')" for t j t' j'
    proof -
      have t: "t < length ?trs" and j: "j < length (?trs ! t)"
        and t': "t' < length ?trs" and j': "j' < length (?trs ! t')"
        using that by (simp_all add: cur(1) cur(2))
      show ?thesis
        using before_disjoint[OF t j t' j' that(5), of rm]
        by (simp add: cur(3)[OF t j] cur(3)[OF t' j'])
    qed
  qed
qed

lemma step_find:
  fixes F :: "nat \<Rightarrow> nat"
  assumes "F 0 \<le> p" and "p < F K"
  shows "\<exists>k<K. F k \<le> p \<and> p < F (Suc k)"
  using assms
proof (induction K)
  case 0
  then show ?case by simp
next
  case (Suc K)
  show ?case
  proof (cases "p < F K")
    case True
    from Suc.IH[OF Suc.prems(1) True] show ?thesis by (auto intro: less_SucI)
  next
    case False
    with Suc.prems show ?thesis by (intro exI[of _ K]) simp
  qed
qed

lemma regions_cover:
  assumes "p < sum_list (concat trs)"
  shows "\<exists>t<length trs. \<exists>j<length (trs ! t).
           before rm trs t j \<le> p \<and> p < before rm trs t j + trs ! t ! j"
proof (cases rm)
  case True
  let ?F = "\<lambda>t. sum_list (concat (take t trs))"
  have "?F 0 \<le> p" "p < ?F (length trs)" using assms by simp_all
  from step_find[of ?F, OF this] obtain t where t: "t < length trs"
    and lo: "?F t \<le> p" and hi: "p < ?F (Suc t)" by blast
  let ?G = "\<lambda>j. ?F t + sum_list (take j (trs ! t))"
  have "?G 0 \<le> p" "p < ?G (length (trs ! t))"
    using lo hi t by (simp_all add: concat_take_Suc del: take_Suc)
  from step_find[of ?G, OF this] obtain j where j: "j < length (trs ! t)"
    and lo': "?G j \<le> p" and hi': "p < ?G (Suc j)" by blast
  have "sum_list (take (Suc j) (trs ! t)) = sum_list (take j (trs ! t)) + trs ! t ! j"
    using j by (simp add: take_Suc_conv_app_nth)
  with lo' hi' have "rm_before trs t j \<le> p \<and> p < rm_before trs t j + trs ! t ! j"
    by (simp add: rm_before_def del: take_Suc)
  with t j True show ?thesis unfolding before_def by auto
next
  case False
  let ?F = "\<lambda>j. sh_before trs j 0"
  have tot: "?F (longest trs) = sum_list (concat trs)"
    by (intro sh_before_total) (simp add: length_le_longest)
  have "?F 0 \<le> p" "p < ?F (longest trs)"
    using assms tot by (simp_all add: sh_before_def)
  from step_find[of ?F, OF this] obtain j where
    lo: "?F j \<le> p" and hi: "p < ?F (Suc j)" by blast
  let ?G = "\<lambda>t. sh_before trs j t"
  have "?G 0 \<le> p" "p < ?G (length trs)"
    using lo hi by (simp_all add: sh_before_row_end)
  from step_find[of ?G, OF this] obtain t where t: "t < length trs"
    and lo': "?G t \<le> p" and hi': "p < ?G (Suc t)" by blast
  from lo' hi' have c: "0 < cnt trs j t" by (simp add: sh_before_Suc)
  then have j: "j < length (trs ! t)" by (auto simp: cnt_def split: if_splits)
  then have "cnt trs j t = trs ! t ! j" by (simp add: cnt_def)
  with lo' hi' have "sh_before trs j t \<le> p \<and> p < sh_before trs j t + trs ! t ! j"
    by (simp add: sh_before_Suc)
  with t j False show ?thesis unfolding before_def by auto
qed

lemma mod_add_cancel_nat:
  assumes "(a + x) mod m = (a' + x) mod (m::nat)" and "a < m" and "a' < m"
  shows "a = a'"
proof -
  have aux: "u = w" if "u \<le> w" "(u + x) mod m = (w + x) mod m" "w < m" for u w
  proof -
    have "m dvd (w + x) - (u + x)"
      using that(1,2) by (intro iffD1[OF mod_eq_dvd_iff_nat]) simp_all
    then have "m dvd w - u" by simp
    moreover have "w - u < m" using that by simp
    ultimately have "w - u = 0" by (meson dvd_imp_le not_less zero_less_iff_neq_zero)
    with that(1) show ?thesis by simp
  qed
  show ?thesis
  proof (cases "a \<le> a'")
    case True
    from aux[OF True assms(1) assms(3)] show ?thesis .
  next
    case False
    then have "a' \<le> a" by simp
    from aux[OF this assms(1)[symmetric] assms(2)] show ?thesis by simp
  qed
qed

lemma sz_sub_inj: "sz_sub a c = sz_sub a' c \<Longrightarrow> a < 2 ^ 64 \<Longrightarrow> a' < 2 ^ 64 \<Longrightarrow> a = a'"
  unfolding sz_sub_def by (rule mod_add_cancel_nat)

lemma sz_sub_lt: "sz_sub a c < 2 ^ 64"
  by (simp add: sz_sub_def)

lemma offset_key_inj:
  assumes "offset_key rm b k1 t = offset_key rm b k2 t" and "k1 < 2 ^ 64" and "k2 < 2 ^ 64"
  shows "k1 = k2"
proof (cases rm)
  case True
  with assms(1) have "sz_sub k1 (base_row_offset b) = sz_sub k2 (base_row_offset b)"
    by (auto simp: offset_key_def intro: sz_sub_inj sz_sub_lt)
  then show ?thesis using assms(2,3) by (rule sz_sub_inj)
next
  case False
  with assms show ?thesis by (auto simp: offset_key_def intro: sz_sub_inj)
qed


lemma same_params:
  assumes "base_row_offset b' = base_row_offset b" and "thread_displacement b' = thread_displacement b"
  shows "offset_key rm b' = offset_key rm b" and "cell_vals rm b' = cell_vals rm b"
proof -
  show ok: "offset_key rm b' = offset_key rm b" by (rule offset_key_cong[OF assms])
  show "cell_vals rm b' = cell_vals rm b" by (intro ext) (simp add: cell_vals_def ok)
qed

lemma written_compliant:
  assumes ne: "thread_rptr b \<noteq> []" and len0: "length (rptr b) \<le> base_row_offset b + 1"
    and fit: "sizes_fit rm b"
    and bound: "rptr_fill_value (rptr b) + sum_list (concat (thread_rptr b)) < 2 ^ 64"
    and res: "InitStorage rm dv b = Some b'"
    and comp: "compliant rm b ps"
  shows "written rm b' ps = {rptr_fill_value (rptr b) ..< length (data b')}"
proof -
  let ?trs = "thread_rptr b" and ?fill = "rptr_fill_value (rptr b)"
  note cur = InitStorage_cursor[OF ne len0 fit bound res]
  note tot = InitStorage_total[OF ne len0 fit bound res]
  note par = same_params[OF tot(3,4), of rm]
  have lenD: "length (data b') = ?fill + sum_list (concat ?trs)"
    by (simp add: tot(2) length_resize)
  have cv: "\<And>t j. t < length ?trs \<Longrightarrow> j < length (?trs ! t) \<Longrightarrow>
              length (cell_vals rm b ps t j) = ?trs ! t ! j"
    using comp unfolding compliant_def by blast
  show ?thesis
  proof (intro set_eqI iffI)
    fix p assume "p \<in> written rm b' ps"
    then obtain t j i where t: "t < length ?trs" and j: "j < length (?trs ! t)"
      and i: "i < ?trs ! t ! j" and p: "p = ?fill + before rm ?trs t j + i"
      unfolding written_def par by (auto simp: cur cv)
    from before_end[OF t j, of rm] i p show "p \<in> {?fill ..< length (data b')}"
      by (simp add: lenD)
  next
    fix p assume "p \<in> {?fill ..< length (data b')}"
    then have lo: "?fill \<le> p" and "p - ?fill < sum_list (concat ?trs)"
      by (simp_all add: lenD) linarith
    from regions_cover[OF this(2), of rm] obtain t j where
      t: "t < length ?trs" and j: "j < length (?trs ! t)"
      and a: "before rm ?trs t j \<le> p - ?fill" and c: "p - ?fill < before rm ?trs t j + ?trs ! t ! j"
      by blast
    let ?i = "p - ?fill - before rm ?trs t j"
    have "?i < length (cell_vals rm b' ps t j)"
      using a c by (simp add: par cv[OF t j])
    moreover have "p = thread_rptr b' ! t ! j + ?i"
      using a lo by (simp add: cur(3)[OF t j])
    moreover have "t < length (thread_rptr b')" "j < length (thread_rptr b' ! t)"
      using t j by (simp_all add: cur)
    ultimately show "p \<in> written rm b' ps"
      unfolding written_def by blast
  qed
qed

lemma pushes_after_init:
  assumes ne: "thread_rptr b \<noteq> []" and len0: "length (rptr b) \<le> base_row_offset b + 1"
    and fit: "sizes_fit rm b"
    and bound: "rptr_fill_value (rptr b) + sum_list (concat (thread_rptr b)) < 2 ^ 64"
    and res: "InitStorage rm dv b = Some b'"
    and comp: "compliant rm b ps"
  shows "\<exists>D C. pushes rm ps b' = Some (b'\<lparr>data := D, thread_rptr := C\<rparr>)
           \<and> pushed rm b' ps D C
           \<and> distinct (push_slots rm ps b')
           \<and> set (push_slots rm ps b') = {rptr_fill_value (rptr b) ..< length (data b')}"
proof -
  note cur = InitStorage_cursor[OF ne len0 fit bound res]
  note tot = InitStorage_total[OF ne len0 fit bound res]
  note par = same_params[OF tot(3,4), of rm]
  have reg: "regions_ok (thread_rptr b') (thread_rptr b) (length (data b'))"
    by (rule InitStorage_regions[OF ne len0 fit bound res])
  have lim: "length (data b') < 2 ^ 64"
    using bound by (simp add: tot(2) length_resize)
  have ic: "in_cells rm b' ps"
    using comp unfolding compliant_def in_cells_def par by (auto simp: cur)
  have wb: "within_budget rm b' ps (thread_rptr b)"
    using comp unfolding compliant_def within_budget_def par by (auto simp: cur)
  from pushes_closed[OF reg lim ic wb] written_compliant[OF ne len0 fit bound res comp]
  show ?thesis by simp
qed


section \<open>From keys to cells\<close>

lemma local_index_key_of:
  assumes "valid_call rm base max_key nthread k t"
  shows "local_index rm base max_key nthread k t = j \<longleftrightarrow> k = key_of rm base max_key nthread t j"
  using assms
  by (auto simp: valid_call_def owns_def local_index_def key_of_def split: if_splits)

lemma cell_filter_by_key:
  assumes val: "all_valid rm base max_key nthread xs" and fit: "base + max_key < 2 ^ 64"
  shows "filter (\<lambda>(k, t', x). t' = t \<and>
            offset_key rm (budget_start rm p_rptr p_data base max_key nthread) k t' = j) xs
         = filter (\<lambda>(k, t', x). k = key_of rm base max_key nthread t j \<and> t' = t) xs"
proof (rule filter_cong[OF refl])
  fix y assume y: "y \<in> set xs"
  obtain k t' x where yy: "y = (k, t', x)" by (cases y) auto
  have v: "valid_call rm base max_key nthread k t'"
    using val y unfolding all_valid_def yy by auto
  show "(case y of (k, t', x) \<Rightarrow> t' = t \<and>
            offset_key rm (budget_start rm p_rptr p_data base max_key nthread) k t' = j)
        = (case y of (k, t', x) \<Rightarrow> k = key_of rm base max_key nthread t j \<and> t' = t)"
    using offset_key_valid(1)[OF v fit, of p_rptr p_data] local_index_key_of[OF v, of j]
    by (auto simp: yy)
qed

lemma sum_list_filter_le:
  "sum_list (map f (filter P xs)) \<le> sum_list (map (f :: 'a \<Rightarrow> nat) xs)"
  by (induction xs) auto

lemma sum_delta_cell:
  fixes t0 N j0 n :: nat and len :: "nat \<Rightarrow> nat"
  assumes "t0 < N" and "j0 < len t0"
  shows "(\<Sum>t<N. \<Sum>j<len t. if t0 = t \<and> j0 = j then n else 0) = n"
proof -
  have inner: "(\<Sum>j<len t. if t0 = t \<and> j0 = j then n else 0)
               = (if t0 = t then (if j0 < len t then n else 0) else 0)" for t
    using sum.delta'[of "{..<len t}" j0 "\<lambda>_. n"] by (cases "t0 = t") simp_all
  show ?thesis
    unfolding inner
    using assms sum.delta'[of "{..<N}" t0 "\<lambda>t. if j0 < len t then n else 0"] by simp
qed

lemma cell_count:
  fixes N :: nat and len :: "nat \<Rightarrow> nat" and off :: "'k \<Rightarrow> nat \<Rightarrow> nat"
  assumes "\<forall>(k, t, x) \<in> set xs. t < N \<and> off k t < len t"
  shows "(\<Sum>t<N. \<Sum>j<len t.
            sum_list (map (\<lambda>(k, t', x). f x) (filter (\<lambda>(k, t', x). t' = t \<and> off k t' = j) xs)))
         = sum_list (map (\<lambda>(k, t', x). (f x :: nat)) xs)"
  using assms
proof (induction xs)
  case Nil
  then show ?case by simp
next
  case (Cons y xs)
  obtain k t0 x where y: "y = (k, t0, x)" by (cases y) auto
  have t0: "t0 < N" and j0: "off k t0 < len t0" using Cons.prems by (auto simp: y)
  have split: "sum_list (map (\<lambda>(k, t', x). f x)
                 (filter (\<lambda>(k, t', x). t' = t \<and> off k t' = j) (y # xs)))
             = (if t0 = t \<and> off k t0 = j then f x else 0)
               + sum_list (map (\<lambda>(k, t', x). f x)
                   (filter (\<lambda>(k, t', x). t' = t \<and> off k t' = j) xs))" for t j
    by (auto simp: y)
  have IH: "(\<Sum>t<N. \<Sum>j<len t.
            sum_list (map (\<lambda>(k, t', x). f x) (filter (\<lambda>(k, t', x). t' = t \<and> off k t' = j) xs)))
         = sum_list (map (\<lambda>(k, t', x). f x) xs)"
    using Cons by simp
  show ?case
    unfolding split sum.distrib IH sum_delta_cell[of t0 N "off k t0" len "f x", OF t0 j0]
    by (simp add: y)
qed

lemma sum_list_concat_cells:
  "sum_list (concat (map (\<lambda>t. map (g t) [0 ..< len t]) [0 ..< N]))
   = (\<Sum>t<N. \<Sum>j<len t. (g t j :: nat))"
proof -
  have "sum_list (map (g t) [0 ..< len t]) = (\<Sum>j<len t. g t j)" for t
    by (simp add: sum_list_map_nth)
  then show ?thesis
    by (simp add: sum_list_concat_nat sum_list_map_nth comp_def)
qed

lemma length_as_sum: "length xs = sum_list (map (\<lambda>(k, t', x). 1::nat) xs)"
  by (induction xs) auto

lemma cell_vals_thread_upd [simp]:
  "cell_vals rm (b\<lparr>thread_rptr := C\<rparr>) = cell_vals rm b"
  by (intro ext) (simp add: cell_vals_def)

lemma budget_ready:
  fixes ps :: "(nat \<times> nat \<times> 'v) list" and p_data :: "'v list"
  assumes n: "0 < nthread" and fit: "base + max_key + 1 < 2 ^ 64"
    and vcs: "all_valid rm base max_key nthread cs"
    and vps: "all_valid rm base max_key nthread ps"
    and mb: "matches_budget cs ps"
    and bound: "length ps < 2 ^ 64"
  shows "\<exists>b1. budget_phase rm p_rptr p_data base max_key nthread cs = Some b1
           \<and> rptr b1 = p_rptr \<and> data b1 = p_data \<and> base_row_offset b1 = base
           \<and> thread_displacement b1 = (if rm then max_key div nthread else 0)
           \<and> thread_rptr b1
               = map (\<lambda>t. map (\<lambda>j. length (filter (\<lambda>(k, t', v).
                                 k = key_of rm base max_key nthread t j \<and> t' = t) ps))
                          [0 ..< buf_len rm base max_key nthread t])
                   [0 ..< nthread]
           \<and> (\<forall>t j. cell_vals rm b1 ps t j
                 = map (\<lambda>(k, t', v). v)
                     (filter (\<lambda>(k, t', v). k = key_of rm base max_key nthread t j \<and> t' = t) ps))
           \<and> compliant rm b1 ps
           \<and> sum_list (concat (thread_rptr b1)) = length ps
           \<and> sizes_fit rm b1"
proof -
  let ?b0 = "budget_start rm p_rptr p_data base max_key nthread"
  let ?b1 = "?b0\<lparr>thread_rptr := budgeted rm ?b0 cs\<rparr>"
  let ?len = "buf_len rm base max_key nthread"
  let ?key = "key_of rm base max_key nthread"
  let ?grp = "\<lambda>t j. filter (\<lambda>(k, t', v). k = ?key t j \<and> t' = t) ps"
  have fit': "base + max_key < 2 ^ 64" using fit by simp
  have bp: "budget_phase rm p_rptr p_data base max_key nthread cs = Some ?b1"
    using vcs by (intro budget_phase_closed[OF n fit']) (simp add: all_valid_def)
  have cv: "cell_vals rm ?b1 ps t j = map (\<lambda>(k, t', v). v) (?grp t j)" for t j
    by (simp add: cell_vals_def cell_filter_by_key[OF vps fit'])
  have bud: "budget_of rm ?b0 cs t j = length (?grp t j)" for t j
    using mb by (simp add: budget_of_def cell_filter_by_key[OF vcs fit'] matches_budget_def)
  have small: "length (?grp t j) < 2 ^ 64" for t j
    by (rule le_less_trans[OF length_filter_le bound])
  have cellv: "budgeted rm ?b0 cs ! t ! j = length (?grp t j)"
    if "t < nthread" "j < ?len t" for t j
  proof -
    have "budgeted rm ?b0 cs ! t ! j = wrap (0 + budget_of rm ?b0 cs t j)"
      using that by (simp add: budgeted_nth buffers_start init_bufs_shape)
    also have "\<dots> = length (?grp t j)"
      unfolding bud by (simp only: add_0 wrap_id[OF small])
    finally show ?thesis .
  qed
  have trs: "thread_rptr ?b1 = map (\<lambda>t. map (\<lambda>j. length (?grp t j)) [0 ..< ?len t]) [0 ..< nthread]"
    by (intro list_list_eqI)
       (simp_all add: budgeted_shape buffers_start init_bufs_shape cellv)
  have ic: "in_cells rm ?b1 ps"
    using in_cells_valid[OF vps[unfolded all_valid_def] fit', of p_rptr p_data]
    by (auto simp: in_cells_def budgeted_shape)
  have comp: "compliant rm ?b1 ps"
    unfolding compliant_def
  proof (intro conjI allI impI)
    show "in_cells rm ?b1 ps" by (rule ic)
    show "length (cell_vals rm ?b1 ps t j) = thread_rptr ?b1 ! t ! j"
      if "t < length (thread_rptr ?b1)" "j < length (thread_rptr ?b1 ! t)" for t j
      using that unfolding trs cv by simp
  qed
  have valid_cells: "\<forall>(k, t, x) \<in> set ps. t < nthread \<and> local_index rm base max_key nthread k t < ?len t"
    using vps offset_key_valid(2,3)[OF _ fit'] unfolding all_valid_def by blast
  have grp_local: "?grp t j = filter (\<lambda>(k, t', v). t' = t \<and> local_index rm base max_key nthread k t' = j) ps"
    for t j
  proof (rule filter_cong[OF refl])
    fix y assume y: "y \<in> set ps"
    obtain k t' x where yy: "y = (k, t', x)" by (cases y) auto
    have v: "valid_call rm base max_key nthread k t'"
      using vps y unfolding all_valid_def yy by auto
    show "(case y of (k, t', v) \<Rightarrow> k = ?key t j \<and> t' = t)
          = (case y of (k, t', v) \<Rightarrow> t' = t \<and> local_index rm base max_key nthread k t' = j)"
      using local_index_key_of[OF v, of j] by (auto simp: yy)
  qed
  have cc: "(\<Sum>t<nthread. \<Sum>j<?len t.
               length (filter (\<lambda>(k, t', v). t' = t
                         \<and> local_index rm base max_key nthread k t' = j) ps)) = length ps"
    using cell_count[OF valid_cells, of "\<lambda>_. 1::nat"] unfolding length_as_sum[symmetric] .
  have total: "sum_list (concat (thread_rptr ?b1)) = length ps"
    unfolding trs sum_list_concat_cells grp_local by (rule cc)
  have sf: "sizes_fit rm ?b1"
  proof (cases rm)
    case True
    have "length (concat (thread_rptr ?b1)) = max_key"
      using True n by (simp add: length_concat_budgeted buffers_start length_concat_init_bufs)
    then show ?thesis using True fit by (simp add: sizes_fit_def buffers_start)
  next
    case False
    have "\<forall>tr\<in>set (thread_rptr ?b1). length tr = max_key - base"
      using False shared_bufs_uniform[of p_rptr p_data base max_key nthread cs] by simp
    then show ?thesis using False fit by (auto simp: sizes_fit_def buffers_start)
  qed
  show ?thesis
    using bp trs cv comp total sf
    by (intro exI[of _ ?b1]) (simp add: buffers_start budget_start_def)
qed

section \<open>The whole protocol\<close>

text \<open>The three phases after \<^verbatim>\<open>InitBudget\<close>, for valid calls that match.\<close>

lemma protocol_run:
  fixes ps :: "(nat \<times> nat \<times> 'v) list" and p_data :: "'v list"
  assumes n: "1 \<le> nthread" and fit: "base + max_key + 1 < 2 ^ 64"
    and len0: "length p_rptr \<le> base + 1"
    and vcs: "all_valid rm base max_key nthread cs"
    and vps: "all_valid rm base max_key nthread ps"
    and mb: "matches_budget cs ps"
    and bound: "rptr_fill_value p_rptr + length ps < 2 ^ 64"
  shows "\<exists>b1 b2 D C.
           budget_phase rm p_rptr p_data base max_key nthread cs = Some b1
         \<and> InitStorage rm dv b1 = Some b2
         \<and> pushes rm ps b2 = Some (b2\<lparr>data := D, thread_rptr := C\<rparr>)
         \<and> build rm dv p_rptr p_data base max_key nthread cs ps
             = Some (b2\<lparr>data := D, thread_rptr := C\<rparr>)
         \<and> rptr b1 = p_rptr \<and> data b1 = p_data \<and> base_row_offset b1 = base
         \<and> thread_rptr b1 \<noteq> [] \<and> sizes_fit rm b1 \<and> compliant rm b1 ps
         \<and> sum_list (concat (thread_rptr b1)) = length ps
         \<and> thread_rptr b1
               = map (\<lambda>t. map (\<lambda>j. length (filter (\<lambda>(k, t', v).
                                 k = key_of rm base max_key nthread t j \<and> t' = t) ps))
                          [0 ..< buf_len rm base max_key nthread t])
                   [0 ..< nthread]
         \<and> (\<forall>t j. cell_vals rm b1 ps t j
                 = map (\<lambda>(k, t', v). v)
                     (filter (\<lambda>(k, t', v). k = key_of rm base max_key nthread t j \<and> t' = t) ps))
         \<and> pushed rm b2 ps D C"
proof -
  have n0: "0 < nthread" using n by simp
  have lps: "length ps < 2 ^ 64" using bound by simp
  from budget_ready[OF n0 fit vcs vps mb lps, of p_rptr p_data] obtain b1 where
    bp: "budget_phase rm p_rptr p_data base max_key nthread cs = Some b1"
    and fr: "rptr b1 = p_rptr" "data b1 = p_data" "base_row_offset b1 = base"
    and trs: "thread_rptr b1
               = map (\<lambda>t. map (\<lambda>j. length (filter (\<lambda>(k, t', v).
                                 k = key_of rm base max_key nthread t j \<and> t' = t) ps))
                          [0 ..< buf_len rm base max_key nthread t])
                   [0 ..< nthread]"
    and cv: "\<forall>t j. cell_vals rm b1 ps t j
                 = map (\<lambda>(k, t', v). v)
                     (filter (\<lambda>(k, t', v). k = key_of rm base max_key nthread t j \<and> t' = t) ps)"
    and comp: "compliant rm b1 ps"
    and total: "sum_list (concat (thread_rptr b1)) = length ps"
    and sf: "sizes_fit rm b1"
    by blast
  have ne: "thread_rptr b1 \<noteq> []"
    using n0 unfolding trs by (simp flip: length_0_conv)
  have l0: "length (rptr b1) \<le> base_row_offset b1 + 1" using len0 fr by simp
  have bd: "rptr_fill_value (rptr b1) + sum_list (concat (thread_rptr b1)) < 2 ^ 64"
    using bound fr total by simp
  obtain b2 where res: "InitStorage rm dv b1 = Some b2"
    using InitStorage_Some[OF ne l0 sf bd] by blast
  from pushes_after_init[OF ne l0 sf bd res comp] obtain D C where
    run: "pushes rm ps b2 = Some (b2\<lparr>data := D, thread_rptr := C\<rparr>)"
    and P: "pushed rm b2 ps D C"
    by blast
  have "build rm dv p_rptr p_data base max_key nthread cs ps
        = Some (b2\<lparr>data := D, thread_rptr := C\<rparr>)"
    by (simp add: build_def bp res run)
  with bp res run fr ne sf comp total trs cv P show ?thesis by blast
qed

section \<open>The groups in the data array\<close>

lemma take_drop_eqI:
  assumes "length vs = m" and "x + m \<le> length D" and "\<forall>i<m. D ! (x + i) = vs ! i"
  shows "take m (drop x D) = vs"
  using assms by (intro nth_equalityI) auto

lemma take_drop_concat:
  assumes "\<forall>k<K. take (len k) (drop (x + (\<Sum>k'<k. len k')) D) = g k"
  shows "take (\<Sum>k<K. len k) (drop x D) = concat (map g [0 ..< K])"
  using assms
proof (induction K)
  case 0
  then show ?case by simp
next
  case (Suc K)
  have "take ((\<Sum>k<K. len k) + len K) (drop x D)
        = take (\<Sum>k<K. len k) (drop x D) @ take (len K) (drop (\<Sum>k<K. len k) (drop x D))"
    by (rule take_add)
  also have "take (\<Sum>k<K. len k) (drop x D) = concat (map g [0 ..< K])"
    using Suc by simp
  also have "take (len K) (drop (\<Sum>k<K. len k) (drop x D)) = g K"
    using Suc.prems by (simp add: add.commute)
  finally show ?case by simp
qed

lemma sum_list_upt: "sum_list (map f [0 ..< n]) = (\<Sum>t<n. (f t :: nat))"
  by (induction n) simp_all

lemma length_group_shared:
  "length (group_of False nthread ps k) = (\<Sum>t<nthread. length (pushed_by ps k t))"
  by (simp add: group_of_def length_concat comp_def sum_list_upt)


lemma cell_slice:
  assumes ne: "thread_rptr b1 \<noteq> []" and l0: "length (rptr b1) \<le> base_row_offset b1 + 1"
    and sf: "sizes_fit rm b1"
    and bd: "rptr_fill_value (rptr b1) + sum_list (concat (thread_rptr b1)) < 2 ^ 64"
    and res: "InitStorage rm dv b1 = Some b2"
    and comp: "compliant rm b1 ps"
    and P: "pushed rm b2 ps D C"
    and t: "t < length (thread_rptr b1)" and j: "j < length (thread_rptr b1 ! t)"
  shows "take (thread_rptr b1 ! t ! j)
           (drop (rptr_fill_value (rptr b1) + before rm (thread_rptr b1) t j) D)
         = cell_vals rm b1 ps t j"
proof -
  note cur = InitStorage_cursor[OF ne l0 sf bd res]
  note tot = InitStorage_total[OF ne l0 sf bd res]
  note par = same_params[OF tot(3,4), of rm]
  have reg: "regions_ok (thread_rptr b2) (thread_rptr b1) (length (data b2))"
    by (rule InitStorage_regions[OF ne l0 sf bd res])
  have t2: "t < length (thread_rptr b2)" and j2: "j < length (thread_rptr b2 ! t)"
    using t j by (simp_all add: cur)
  have len: "length (cell_vals rm b1 ps t j) = thread_rptr b1 ! t ! j"
    using comp t j unfolding compliant_def by blast
  have lim: "thread_rptr b2 ! t ! j + thread_rptr b1 ! t ! j \<le> length D"
    using reg t2 j2 P unfolding regions_ok_def pushed_def by auto
  have vals: "\<forall>i<thread_rptr b1 ! t ! j. D ! (thread_rptr b2 ! t ! j + i) = cell_vals rm b1 ps t j ! i"
    using P t2 j2 len unfolding pushed_def par by auto
  show ?thesis
    using take_drop_eqI[OF len lim vals] by (simp add: cur(3)[OF t j])
qed

lemma row_shared:
  fixes ps :: "(nat \<times> nat \<times> 'v) list"
  assumes trs: "thread_rptr b1
               = map (\<lambda>t. map (\<lambda>j. length (filter (\<lambda>(k, t', v).
                                 k = key_of False base max_key nthread t j \<and> t' = t) ps))
                          [0 ..< buf_len False base max_key nthread t])
                   [0 ..< nthread]"
    and cv: "\<forall>t j. cell_vals False b1 ps t j
                 = map (\<lambda>(k, t', v). v)
                     (filter (\<lambda>(k, t', v). k = key_of False base max_key nthread t j \<and> t' = t) ps)"
    and ne: "thread_rptr b1 \<noteq> []" and l0: "length (rptr b1) \<le> base_row_offset b1 + 1"
    and sf: "sizes_fit False b1"
    and bd: "rptr_fill_value (rptr b1) + sum_list (concat (thread_rptr b1)) < 2 ^ 64"
    and res: "InitStorage False dv b1 = Some b2"
    and comp: "compliant False b1 ps"
    and P: "pushed False b2 ps D C"
    and r: "r < max_key - base"
  shows "prefix_total False (thread_rptr b1) (Suc r)
         = prefix_total False (thread_rptr b1) r + length (group_of False nthread ps (base + r))"
    and "take (length (group_of False nthread ps (base + r)))
           (drop (rptr_fill_value (rptr b1) + prefix_total False (thread_rptr b1) r) D)
         = group_of False nthread ps (base + r)"
proof -
  let ?trs = "thread_rptr b1" and ?fill = "rptr_fill_value (rptr b1)"
  let ?vs = "pushed_by ps (base + r)"
  have shape: "length ?trs = nthread" "\<And>t. t < nthread \<Longrightarrow> length (?trs ! t) = max_key - base"
    unfolding trs by (simp_all add: buf_len_def)
  have cell: "?trs ! t ! r = length (?vs t)" if "t < nthread" for t
    using that r unfolding trs by (simp add: buf_len_def key_of_def pushed_by_def)
  have cnt: "cnt ?trs r t = length (?vs t)" if "t < nthread" for t
    using that r shape cell by (simp add: cnt_def)
  have cvs: "cell_vals False b1 ps t r = ?vs t" for t
    using cv by (simp add: key_of_def pushed_by_def)
  have row: "rowsum ?trs r = length (group_of False nthread ps (base + r))"
    by (simp add: rowsum_def shape cnt length_group_shared)
  show "prefix_total False ?trs (Suc r)
         = prefix_total False ?trs r + length (group_of False nthread ps (base + r))"
    by (simp add: prefix_total_def sh_before_row_Suc row)
  have slice: "take (length (?vs t)) (drop (?fill + sh_before ?trs r 0 + (\<Sum>t'<t. length (?vs t'))) D)
               = ?vs t" if t: "t < nthread" for t
  proof -
    have "(\<Sum>t'<t. length (?vs t')) = (\<Sum>t'<t. cnt ?trs r t')"
      using t by (intro sum.cong refl) (simp add: cnt)
    then have eq: "?fill + sh_before ?trs r 0 + (\<Sum>t'<t. length (?vs t'))
               = ?fill + before False ?trs t r"
      by (simp add: before_def sh_before_def)
    show ?thesis
      unfolding eq
      using cell_slice[OF ne l0 sf bd res comp P, of t r] t r shape
      by (simp add: cell cvs)
  qed
  have "take (\<Sum>t<nthread. length (?vs t)) (drop (?fill + sh_before ?trs r 0) D)
        = concat (map ?vs [0 ..< nthread])"
    by (rule take_drop_concat) (use slice in blast)
  then show "take (length (group_of False nthread ps (base + r)))
           (drop (?fill + prefix_total False ?trs r) D)
         = group_of False nthread ps (base + r)"
    by (simp add: length_group_shared prefix_total_def) (simp add: group_of_def)
qed

lemma owner_owns:
  assumes "0 < nthread" and "r < max_key"
  shows "owns max_key nthread (owner max_key nthread r) r"
proof (cases "max_key div nthread = 0")
  case True
  with assms show ?thesis by (simp add: owns_def owner_def)
next
  case False
  let ?d = "max_key div nthread"
  have d: "0 < ?d" using False by simp
  show ?thesis
  proof (cases "r div ?d \<le> nthread - 1")
    case True
    have "r div ?d * ?d \<le> r" by simp
    moreover have "r < (r div ?d + 1) * ?d"
      using d by (metis Suc_eq_plus1 dividend_less_div_times mult.commute mult_Suc_right add.commute)
    ultimately show ?thesis
      using True False assms by (auto simp: owns_def owner_def min_absorb1)
  next
    case False
    then have gt: "nthread - 1 < r div ?d" by simp
    have "(nthread - 1) * ?d \<le> r div ?d * ?d"
      using gt by (intro mult_le_mono1) simp
    also have "\<dots> \<le> r" by simp
    finally show ?thesis
      using gt \<open>max_key div nthread \<noteq> 0\<close> assms by (auto simp: owns_def owner_def min_def)
  qed
qed

lemma owns_unique:
  assumes "owns max_key nthread t r"
  shows "t = owner max_key nthread r"
proof (cases "max_key div nthread = 0")
  case True
  with assms show ?thesis by (auto simp: owns_def owner_def split: if_splits)
next
  case False
  let ?d = "max_key div nthread"
  have d: "0 < ?d" using False by simp
  from assms have t: "t < nthread" and lo: "t * ?d \<le> r" by (simp_all add: owns_def)
  have tle: "t \<le> r div ?d"
    using lo d by (simp add: less_eq_div_iff_mult_less_eq)
  show ?thesis
  proof (cases "t = nthread - 1")
    case True
    with tle False show ?thesis by (simp add: owner_def min_def)
  next
    case False
    with assms have "r < (t + 1) * ?d" by (simp add: owns_def)
    then have "r div ?d < t + 1" using d by (simp add: div_less_iff_less_mult)
    with tle have "r div ?d = t" by simp
    with t \<open>max_key div nthread \<noteq> 0\<close> show ?thesis by (simp add: owner_def min_def)
  qed
qed

lemma take_concat_cell:
  assumes "t < length trs" and "j \<le> length (trs ! t)"
  shows "take (length (concat (take t trs)) + j) (concat trs)
         = concat (take t trs) @ take j (trs ! t)"
  using assms by (subst concat_split_nth[OF assms(1)]) simp

lemma length_concat_take_uniform:
  assumes "\<forall>t'<t. length (trs ! t') = d" and "t \<le> length trs"
  shows "length (concat (take t trs)) = t * d"
  using assms
proof (induction t)
  case 0
  then show ?case by simp
next
  case (Suc t)
  then show ?case by (simp add: take_Suc_conv_app_nth)
qed


lemma row_partitioned:
  fixes ps :: "(nat \<times> nat \<times> 'v) list"
  assumes trs: "thread_rptr b1
               = map (\<lambda>t. map (\<lambda>j. length (filter (\<lambda>(k, t', v).
                                 k = key_of True base max_key nthread t j \<and> t' = t) ps))
                          [0 ..< buf_len True base max_key nthread t])
                   [0 ..< nthread]"
    and cv: "\<forall>t j. cell_vals True b1 ps t j
                 = map (\<lambda>(k, t', v). v)
                     (filter (\<lambda>(k, t', v). k = key_of True base max_key nthread t j \<and> t' = t) ps)"
    and ne: "thread_rptr b1 \<noteq> []" and l0: "length (rptr b1) \<le> base_row_offset b1 + 1"
    and sf: "sizes_fit True b1"
    and bd: "rptr_fill_value (rptr b1) + sum_list (concat (thread_rptr b1)) < 2 ^ 64"
    and res: "InitStorage True dv b1 = Some b2"
    and comp: "compliant True b1 ps"
    and P: "pushed True b2 ps D C"
    and n0: "0 < nthread"
    and vps: "all_valid True base max_key nthread ps"
    and r: "r < max_key"
  shows "prefix_total True (thread_rptr b1) (Suc r)
         = prefix_total True (thread_rptr b1) r + length (group_of True nthread ps (base + r))"
    and "take (length (group_of True nthread ps (base + r)))
           (drop (rptr_fill_value (rptr b1) + prefix_total True (thread_rptr b1) r) D)
         = group_of True nthread ps (base + r)"
proof -
  let ?trs = "thread_rptr b1" and ?fill = "rptr_fill_value (rptr b1)"
  let ?d = "max_key div nthread"
  let ?t = "owner max_key nthread r"
  let ?j = "r - ?t * ?d"
  have ow: "owns max_key nthread ?t r" by (rule owner_owns[OF n0 r])
  then have t: "?t < nthread" and lo: "?t * ?d \<le> r"
    and j: "?j < buf_len True base max_key nthread ?t"
    by (auto simp: owns_def buf_len_def split: if_splits)
  have shape: "length ?trs = nthread"
    "\<And>t. t < nthread \<Longrightarrow> length (?trs ! t) = buf_len True base max_key nthread t"
    unfolding trs by simp_all
  have key: "key_of True base max_key nthread ?t ?j = base + r"
    using lo by (simp add: key_of_def)
  have same: "filter (\<lambda>(k, t', v). k = base + r \<and> t' = ?t) ps
              = filter (\<lambda>(k, t', v). k = base + r) ps"
  proof (rule filter_cong[OF refl])
    fix y assume y: "y \<in> set ps"
    obtain k t' x where yy: "y = (k, t', x)" by (cases y) auto
    have "valid_call True base max_key nthread k t'"
      using vps y unfolding all_valid_def yy by auto
    then have "k = base + r \<Longrightarrow> t' = ?t"
      using owns_unique[of max_key nthread t' r] by (auto simp: valid_call_def)
    then show "(case y of (k, t', v) \<Rightarrow> k = base + r \<and> t' = ?t)
               = (case y of (k, t', v) \<Rightarrow> k = base + r)"
      by (auto simp: yy)
  qed
  have "?trs ! ?t ! ?j = length (filter (\<lambda>(k, t', v).
            k = key_of True base max_key nthread ?t ?j \<and> t' = ?t) ps)"
    using t j unfolding trs by simp
  then have cell: "?trs ! ?t ! ?j = length (group_of True nthread ps (base + r))"
    unfolding key same by (simp add: group_of_def)
  have "cell_vals True b1 ps ?t ?j = map (\<lambda>(k, t', v). v) (filter (\<lambda>(k, t', v).
            k = key_of True base max_key nthread ?t ?j \<and> t' = ?t) ps)"
    using cv by blast
  then have cvs: "cell_vals True b1 ps ?t ?j = group_of True nthread ps (base + r)"
    unfolding key same by (simp add: group_of_def)
  have before_len: "length (concat (take ?t ?trs)) = ?t * ?d"
  proof (rule length_concat_take_uniform)
    show "\<forall>t'<?t. length (?trs ! t') = ?d"
      using t by (auto simp: shape buf_len_def)
    show "?t \<le> length ?trs" using t by (simp add: shape)
  qed
  have pos: "length (concat (take ?t ?trs)) + ?j = r"
    using lo by (simp add: before_len)
  have tk: "take r (concat ?trs) = concat (take ?t ?trs) @ take ?j (?trs ! ?t)"
    using take_concat_cell[of ?t ?trs ?j] t j by (simp add: shape pos)
  have tk': "take (Suc r) (concat ?trs) = concat (take ?t ?trs) @ take (Suc ?j) (?trs ! ?t)"
    using take_concat_cell[of ?t ?trs "Suc ?j"] t j pos by (simp add: shape del: take_Suc)
  have pre: "prefix_total True ?trs r = before True ?trs ?t ?j"
    by (simp add: prefix_total_def before_def rm_before_def tk)
  have "sum_list (take (Suc ?j) (?trs ! ?t)) = sum_list (take ?j (?trs ! ?t)) + ?trs ! ?t ! ?j"
    using t j by (simp add: shape take_Suc_conv_app_nth)
  then show "prefix_total True ?trs (Suc r)
         = prefix_total True ?trs r + length (group_of True nthread ps (base + r))"
    unfolding prefix_total_def if_True tk tk' by (simp add: cell del: take_Suc)
  show "take (length (group_of True nthread ps (base + r)))
           (drop (?fill + prefix_total True ?trs r) D)
         = group_of True nthread ps (base + r)"
    using cell_slice[OF ne l0 sf bd res comp P, of ?t ?j] t j
    by (simp add: shape cell cvs pre)
qed

lemma new_rows_start:
  assumes trs: "map length (thread_rptr b1) = map (buf_len rm base max_key nthread) [0 ..< nthread]"
    and n0: "0 < nthread" and l0: "length (rptr b1) \<le> base + 1" and bs: "base_row_offset b1 = base"
  shows "new_rows rm b1 = rows rm base max_key"
proof (cases rm)
  case True
  have "length (concat (thread_rptr b1)) = sum_list (map length (thread_rptr b1))"
    by (simp add: length_concat)
  also have "\<dots> = max_key"
    unfolding trs using True sum_buf_len[OF n0, of base max_key] by simp
  finally show ?thesis using True by (simp add: new_rows_def rows_def)
next
  case False
  have len: "length (thread_rptr b1) = nthread"
    using arg_cong[OF trs, of length] by simp
  have uni: "\<forall>tr\<in>set (thread_rptr b1). length tr = max_key - base"
  proof
    fix tr assume "tr \<in> set (thread_rptr b1)"
    then obtain t where t: "t < nthread" and tr: "tr = thread_rptr b1 ! t"
      by (auto simp: in_set_conv_nth len)
    have "map length (thread_rptr b1) ! t = map (buf_len rm base max_key nthread) [0 ..< nthread] ! t"
      by (simp add: trs)
    then show "length tr = max_key - base"
      using t len False by (simp add: tr buf_len_def)
  qed
  have ne: "thread_rptr b1 \<noteq> []" using len n0 by auto
  show ?thesis
    using False l0 ne
    by (simp add: new_rows_def rows_def sh_rows_def length_sh_rp1 bs sh_rptr_len_uniform[OF uni])
qed


text \<open>The arrays a build returns.\<close>

lemma build_result:
  fixes ps :: "(nat \<times> nat \<times> 'v) list" and p_data :: "'v list"
  assumes n: "1 \<le> nthread" and fit: "base + max_key + 1 < 2 ^ 64"
    and len0: "length p_rptr \<le> base + 1"
    and vcs: "all_valid rm base max_key nthread cs"
    and vps: "all_valid rm base max_key nthread ps"
    and mb: "matches_budget cs ps"
    and bound: "rptr_fill_value p_rptr + length ps < 2 ^ 64"
  shows "\<exists>b3. build rm dv p_rptr p_data base max_key nthread cs ps = Some b3
         \<and> length (rptr b3) = base + rows rm base max_key + 1
         \<and> (\<forall>idx<length (rptr b3). rptr b3 ! idx =
               (if idx < length p_rptr then p_rptr ! idx
                else rptr_fill_value p_rptr + groups_total rm nthread ps base (idx - base)))
         \<and> (\<forall>r\<le>rows rm base max_key.
               rptr b3 ! (base + r) = rptr_fill_value p_rptr + groups_total rm nthread ps base r)
         \<and> (\<forall>r<rows rm base max_key.
               take (length (group_of rm nthread ps (base + r)))
                 (drop (rptr_fill_value p_rptr + groups_total rm nthread ps base r) (data b3))
               = group_of rm nthread ps (base + r))
         \<and> groups_total rm nthread ps base (rows rm base max_key) = length ps
         \<and> length (data b3) = rptr_fill_value p_rptr + length ps
         \<and> take (rptr_fill_value p_rptr) (data b3)
             = take (rptr_fill_value p_rptr) (resize p_data (rptr_fill_value p_rptr + length ps) dv)"
proof -
  let ?fill = "rptr_fill_value p_rptr" and ?K = "rows rm base max_key"
  let ?G = "groups_total rm nthread ps base"
  have n0: "0 < nthread" using n by simp
  from protocol_run[OF n fit len0 vcs vps mb bound, of p_data dv] obtain b1 b2 D C where
    bld: "build rm dv p_rptr p_data base max_key nthread cs ps
             = Some (b2\<lparr>data := D, thread_rptr := C\<rparr>)"
    and res: "InitStorage rm dv b1 = Some b2"
    and fr: "rptr b1 = p_rptr" "data b1 = p_data" "base_row_offset b1 = base"
    and ne: "thread_rptr b1 \<noteq> []" and sf: "sizes_fit rm b1" and comp: "compliant rm b1 ps"
    and total: "sum_list (concat (thread_rptr b1)) = length ps"
    and trs: "thread_rptr b1
               = map (\<lambda>t. map (\<lambda>j. length (filter (\<lambda>(k, t', v).
                                 k = key_of rm base max_key nthread t j \<and> t' = t) ps))
                          [0 ..< buf_len rm base max_key nthread t])
                   [0 ..< nthread]"
    and cv: "\<forall>t j. cell_vals rm b1 ps t j
                 = map (\<lambda>(k, t', v). v)
                     (filter (\<lambda>(k, t', v). k = key_of rm base max_key nthread t j \<and> t' = t) ps)"
    and P: "pushed rm b2 ps D C"
    by blast
  let ?trs = "thread_rptr b1"
  let ?b3 = "b2\<lparr>data := D, thread_rptr := C\<rparr>"
  have l0: "length (rptr b1) \<le> base_row_offset b1 + 1" using len0 fr by simp
  have bd: "rptr_fill_value (rptr b1) + sum_list (concat ?trs) < 2 ^ 64"
    using bound fr total by simp
  note tot = InitStorage_total[OF ne l0 sf bd res]
  note cur = InitStorage_cursor[OF ne l0 sf bd res]
  have shape: "map length ?trs = map (buf_len rm base max_key nthread) [0 ..< nthread]"
    unfolding trs by (simp add: comp_def)
  have K: "new_rows rm b1 = ?K"
    using new_rows_start[OF shape n0 _ fr(3)] len0 fr by simp
  have row: "prefix_total rm ?trs (Suc r) = prefix_total rm ?trs r
                + length (group_of rm nthread ps (base + r))"
            "take (length (group_of rm nthread ps (base + r)))
               (drop (?fill + prefix_total rm ?trs r) D) = group_of rm nthread ps (base + r)"
    if r: "r < ?K" for r
  proof -
    show "prefix_total rm ?trs (Suc r) = prefix_total rm ?trs r
                + length (group_of rm nthread ps (base + r))"
    proof (cases rm)
      case True
      then show ?thesis
        using row_partitioned(1)[of b1 base max_key nthread ps dv b2 D C r]
          trs cv ne l0 sf bd res comp P n0 vps r
        by (simp add: rows_def)
    next
      case False
      then show ?thesis
        using row_shared(1)[of b1 base max_key nthread ps dv b2 D C r]
          trs cv ne l0 sf bd res comp P r
        by (simp add: rows_def)
    qed
    show "take (length (group_of rm nthread ps (base + r)))
               (drop (?fill + prefix_total rm ?trs r) D) = group_of rm nthread ps (base + r)"
    proof (cases rm)
      case True
      then show ?thesis
        using row_partitioned(2)[of b1 base max_key nthread ps dv b2 D C r]
          trs cv ne l0 sf bd res comp P n0 vps r fr
        by (simp add: rows_def)
    next
      case False
      then show ?thesis
        using row_shared(2)[of b1 base max_key nthread ps dv b2 D C r]
          trs cv ne l0 sf bd res comp P r fr
        by (simp add: rows_def)
    qed
  qed
  have G: "prefix_total rm ?trs r = ?G r" if "r \<le> ?K" for r
    using that
  proof (induction r)
    case 0
    then show ?case by (simp add: prefix_total_0 groups_total_def)
  next
    case (Suc r)
    then show ?case using row(1)[of r] by (simp add: groups_total_def)
  qed
  have GK: "?G ?K = length ps"
    using G[of ?K] prefix_total_all[of rm b1 ?K] K total by simp
  have lenr: "length (rptr ?b3) = base + ?K + 1"
    using tot(5) K fr by simp
  have nth: "rptr ?b3 ! idx = (if idx < length p_rptr then p_rptr ! idx
                else ?fill + ?G (idx - base))" if "idx < length (rptr ?b3)" for idx
  proof -
    have "idx - base \<le> ?K" using that lenr by simp
    then show ?thesis using tot(6)[of idx] that fr by (simp add: G)
  qed
  have at: "rptr ?b3 ! (base + r) = ?fill + ?G r" if "r \<le> ?K" for r
  proof (cases "base + r < length p_rptr")
    case True
    then have r0: "r = 0" and bl: "base < length p_rptr" using len0 by simp_all
    have "?G 0 = 0" by (simp add: groups_total_def)
    then show ?thesis
      using nth[of base] lenr bl rptr_at_base[OF len0 bl] by (simp add: r0)
  next
    case False
    then show ?thesis using nth[of "base + r"] lenr that by simp
  qed
  have slices: "take (length (group_of rm nthread ps (base + r))) (drop (?fill + ?G r) D)
                = group_of rm nthread ps (base + r)" if "r < ?K" for r
    using row(2)[OF that] G[of r] that by simp
  have lenD: "length D = ?fill + length ps"
    using P tot(2) fr total by (simp add: pushed_def length_resize)
  have old: "take ?fill D = take ?fill (resize p_data (?fill + length ps) dv)"
  proof (rule nth_equalityI)
    show "length (take ?fill D) = length (take ?fill (resize p_data (?fill + length ps) dv))"
      by (simp add: lenD length_resize)
    fix p assume "p < length (take ?fill D)"
    then have p: "p < ?fill" by simp
    have "p < thread_rptr b2 ! t ! j \<or>
          thread_rptr b2 ! t ! j + length (cell_vals rm b2 ps t j) \<le> p"
      if "t < length (thread_rptr b2)" "j < length (thread_rptr b2 ! t)" for t j
    proof -
      have "t < length ?trs" "j < length (?trs ! t)"
        using that by (simp_all add: cur)
      from cur(3)[OF this] p fr show ?thesis by simp
    qed
    then have "D ! p = data b2 ! p" using P unfolding pushed_def by blast
    then show "take ?fill D ! p = take ?fill (resize p_data (?fill + length ps) dv) ! p"
      using p tot(2) fr total by simp
  qed
  show ?thesis
    using bld lenr nth at slices GK lenD old
    by (intro exI[of _ ?b3]) simp
qed

section \<open>The arrays of a build, and builds over a part of the keys\<close>

text \<open>
  When the caller's data array has as many values as the last entry of the caller's
  offset array says, a build appends the groups of its keys, in key order, to the
  data array.
\<close>


lemma build_arrays:
  fixes ps :: "(nat \<times> nat \<times> 'v) list" and p_data :: "'v list"
  assumes n: "1 \<le> nthread" and fit: "base + max_key + 1 < 2 ^ 64"
    and len0: "length p_rptr \<le> base + 1"
    and vcs: "all_valid rm base max_key nthread cs"
    and vps: "all_valid rm base max_key nthread ps"
    and mb: "matches_budget cs ps"
    and bound: "rptr_fill_value p_rptr + length ps < 2 ^ 64"
    and lend: "length p_data = rptr_fill_value p_rptr"
  shows "\<exists>b3. build rm dv p_rptr p_data base max_key nthread cs ps = Some b3
         \<and> rptr b3 = map (\<lambda>idx. if idx < length p_rptr then p_rptr ! idx
                                 else rptr_fill_value p_rptr
                                      + groups_total rm nthread ps base (idx - base))
                        [0 ..< base + rows rm base max_key + 1]
         \<and> data b3 = p_data @ concat (map (\<lambda>r. group_of rm nthread ps (base + r))
                                        [0 ..< rows rm base max_key])
         \<and> rptr_fill_value (rptr b3) = rptr_fill_value p_rptr + length ps
         \<and> length (data b3) = rptr_fill_value p_rptr + length ps
         \<and> groups_total rm nthread ps base (rows rm base max_key) = length ps"
proof -
  let ?fill = "rptr_fill_value p_rptr" and ?K = "rows rm base max_key"
  let ?G = "groups_total rm nthread ps base"
  let ?g = "\<lambda>r. group_of rm nthread ps (base + r)"
  from build_result[OF n fit len0 vcs vps mb bound, of dv p_data] obtain b3 where
    bld: "build rm dv p_rptr p_data base max_key nthread cs ps = Some b3"
    and lenr: "length (rptr b3) = base + ?K + 1"
    and nth: "\<forall>idx<length (rptr b3). rptr b3 ! idx =
               (if idx < length p_rptr then p_rptr ! idx else ?fill + ?G (idx - base))"
    and at: "\<forall>r\<le>?K. rptr b3 ! (base + r) = ?fill + ?G r"
    and slices: "\<forall>r<?K. take (length (?g r)) (drop (?fill + ?G r) (data b3)) = ?g r"
    and GK: "?G ?K = length ps"
    and lenD: "length (data b3) = ?fill + length ps"
    and old: "take ?fill (data b3) = take ?fill (resize p_data (?fill + length ps) dv)"
    by blast
  have r: "rptr b3 = map (\<lambda>idx. if idx < length p_rptr then p_rptr ! idx
                                 else ?fill + ?G (idx - base)) [0 ..< base + ?K + 1]"
    using lenr nth by (intro nth_equalityI) (simp_all del: upt_Suc)
  have "take (\<Sum>r<?K. length (?g r)) (drop ?fill (data b3)) = concat (map ?g [0 ..< ?K])"
    by (rule take_drop_concat) (use slices in \<open>simp add: groups_total_def\<close>)
  then have new: "drop ?fill (data b3) = concat (map ?g [0 ..< ?K])"
    using GK lenD by (simp add: groups_total_def)
  have "take ?fill (data b3) = p_data"
    using old lend by (simp add: resize_def)
  then have d: "data b3 = p_data @ concat (map ?g [0 ..< ?K])"
    using new by (metis append_take_drop_id)
  have ne: "rptr b3 \<noteq> []" using lenr by auto
  have "last (rptr b3) = rptr b3 ! (base + ?K)"
    using lenr ne by (simp add: last_conv_nth)
  also have "\<dots> = ?fill + ?G ?K" using at by simp
  finally have "rptr_fill_value (rptr b3) = ?fill + length ps"
    using ne GK by (simp add: rptr_fill_value_def)
  with bld r d lenD GK show ?thesis by blast
qed

lemma pushed_by_filter:
  assumes "\<And>t v. P (k, t, v)"
  shows "pushed_by (filter P ps) k t = pushed_by ps k t"
proof -
  have "filter (\<lambda>(k', t', v). k' = k \<and> t' = t) (filter P ps)
        = filter (\<lambda>(k', t', v). k' = k \<and> t' = t) ps"
    unfolding filter_filter by (rule filter_cong) (use assms in auto)
  then show ?thesis by (simp add: pushed_by_def)
qed

lemma group_of_shared_filter:
  assumes "\<And>t v. P (k, t, v)"
  shows "group_of False nthread (filter P ps) k = group_of False nthread ps k"
proof -
  have "pushed_by (filter P ps) k = pushed_by ps k"
    by (rule ext) (rule pushed_by_filter, rule assms)
  then show ?thesis by (simp add: group_of_def)
qed

lemma group_of_partitioned_records:
  "group_of True nthread ps k = map snd (filter (\<lambda>(k', v). k' = k) (records ps))"
  by (induction ps) (auto simp: group_of_def records_def)

lemma group_of_partitioned_filter:
  assumes "records ps' = filter P (records ps)" and "\<And>v. P (k, v)"
  shows "group_of True nthread ps' k = group_of True nthread' ps k"
proof -
  have "filter (\<lambda>(k', v). k' = k) (filter P (records ps))
        = filter (\<lambda>(k', v). k' = k) (records ps)"
    unfolding filter_filter by (rule filter_cong) (use assms(2) in auto)
  then show ?thesis by (simp add: group_of_partitioned_records assms(1))
qed

lemma length_records [simp]: "length (records ps) = length ps"
  by (simp add: records_def)

lemma length_split_filter:
  "length (filter (\<lambda>x. f x < (m::nat)) xs) + length (filter (\<lambda>x. m \<le> f x) xs) = length xs"
  by (induction xs) auto

lemma groups_total_split:
  assumes "m \<le> idx"
  shows "groups_total rm nthread ps 0 idx
         = groups_total rm nthread ps 0 m
           + (\<Sum>r<idx - m. length (group_of rm nthread ps (m + r)))"
proof -
  let ?f = "\<lambda>k. length (group_of rm nthread ps k)"
  have "sum ?f {0 ..< idx} = sum ?f {0 ..< m} + sum ?f {m ..< idx}"
    using assms by (simp add: sum.atLeastLessThan_concat)
  moreover have "sum ?f {m ..< idx} = (\<Sum>r\<in>{0 ..< idx - m}. ?f (m + r))"
    using sum.shift_bounds_nat_ivl[of ?f 0 m "idx - m"] assms by (simp add: add.commute)
  ultimately show ?thesis by (simp add: groups_total_def atLeast0LessThan)
qed

lemma concat_groups_split:
  assumes "m \<le> (n::nat)"
  shows "concat (map g [0 ..< n])
         = concat (map g [0 ..< m]) @ concat (map (\<lambda>r. g (m + r)) [0 ..< n - m])"
proof -
  have "[0 ..< n] = [0 ..< m] @ [m ..< n]"
    using assms upt_add_eq_append[of 0 m "n - m"] by simp
  moreover have "map (\<lambda>r. g (m + r)) [0 ..< n - m] = map g [m ..< n]"
  proof -
    have "map g [m ..< n] = map g (map (\<lambda>i. i + m) [0 ..< n - m])"
      using map_add_upt[of m "n - m"] assms by simp
    then show ?thesis by (simp add: comp_def add.commute)
  qed
  ultimately show ?thesis by simp
qed


section \<open>What the pushes store in the data array\<close>

text \<open>
  A \<^verbatim>\<open>Push\<close> that returns stores its value at the slot its cursor cell holds and
  changes no other entry of the data array. So after a list of pushes to pairwise
  different slots, every written slot holds the value of the one push that wrote it
  and every other slot is unchanged.
\<close>

lemma Push_writes:
  assumes "Push rm k v t b = Some b1"
  shows "thread_rptr b ! t ! offset_key rm b k t < length (data b)"
    and "data b1 = (data b)[thread_rptr b ! t ! offset_key rm b k t := v]"
    and "rptr b1 = rptr b"
  using assms by (auto simp: Push_def Let_def split: if_splits)

lemma length_push_slots:
  "pushes rm ps b = Some bN \<Longrightarrow> length (push_slots rm ps b) = length ps"
proof (induction ps arbitrary: b)
  case Nil
  then show ?case by simp
next
  case (Cons p ps)
  obtain k t v where p: "p = (k, t, v)" by (cases p)
  from Cons.prems obtain b1 where b1: "Push rm k v t b = Some b1" and r: "pushes rm ps b1 = Some bN"
    unfolding p by (auto split: option.splits)
  show ?case using Cons.IH[OF r] b1 unfolding p by simp
qed

lemma pushes_trace:
  assumes "pushes rm ps b = Some bN" and "i < length ps"
  shows "\<exists>bi bj. pushes rm (take i ps) b = Some bi
           \<and> Push rm (fst (ps ! i)) (snd (snd (ps ! i))) (fst (snd (ps ! i))) bi = Some bj
           \<and> pushes rm (take (Suc i) ps) b = Some bj
           \<and> push_slots rm ps b ! i < length (data bi)
           \<and> data bj = (data bi)[push_slots rm ps b ! i := snd (snd (ps ! i))]"
  using assms
proof (induction ps arbitrary: b i)
  case Nil
  then show ?case by simp
next
  case (Cons p ps)
  obtain k t v where p: "p = (k, t, v)" by (cases p)
  from Cons.prems(1) obtain b1 where b1: "Push rm k v t b = Some b1"
    and r: "pushes rm ps b1 = Some bN"
    unfolding p by (auto split: option.splits)
  show ?case
  proof (cases i)
    case 0
    show ?thesis
      unfolding 0 p using b1 Push_writes(1,2)[OF b1] by simp
  next
    case (Suc i')
    then have "i' < length ps" using Cons.prems(2) by simp
    from Cons.IH[OF r this] show ?thesis
      unfolding Suc p using b1 by simp
  qed
qed

lemma pushes_data:
  assumes "pushes rm ps b = Some bN" and "distinct (push_slots rm ps b)"
  shows "length (data bN) = length (data b)
         \<and> rptr bN = rptr b
         \<and> (\<forall>i<length ps. data bN ! (push_slots rm ps b ! i) = snd (snd (ps ! i)))
         \<and> (\<forall>p. p \<notin> set (push_slots rm ps b) \<longrightarrow> data bN ! p = data b ! p)"
  using assms
proof (induction ps arbitrary: b)
  case Nil
  then show ?case by simp
next
  case (Cons q ps)
  obtain k t v where q: "q = (k, t, v)" by (cases q)
  from Cons.prems(1) obtain b1 where b1: "Push rm k v t b = Some b1"
    and r: "pushes rm ps b1 = Some bN"
    unfolding q by (auto split: option.splits)
  let ?rp = "thread_rptr b ! t ! offset_key rm b k t"
  have sl: "push_slots rm (q # ps) b = ?rp # push_slots rm ps b1"
    unfolding q using b1 by simp
  have d: "distinct (push_slots rm ps b1)" and nin: "?rp \<notin> set (push_slots rm ps b1)"
    using Cons.prems(2) unfolding sl by simp_all
  note w = Push_writes[OF b1]
  note ih = Cons.IH[OF r d]
  have len: "length (data bN) = length (data b)" using ih w(2) by simp
  have rp: "rptr bN = rptr b" using ih w(3) by simp
  have at: "data bN ! (push_slots rm (q # ps) b ! i) = snd (snd ((q # ps) ! i))"
    if "i < length (q # ps)" for i
  proof (cases i)
    case 0
    have "data bN ! ?rp = data b1 ! ?rp" using ih nin by blast
    then show ?thesis unfolding 0 q using w(1,2) b1 by simp
  next
    case (Suc i')
    then show ?thesis unfolding sl using ih that by simp
  qed
  have other: "data bN ! p = data b ! p" if "p \<notin> set (push_slots rm (q # ps) b)" for p
  proof -
    from that have "p \<noteq> ?rp" "p \<notin> set (push_slots rm ps b1)" unfolding sl by simp_all
    then show ?thesis using ih w(2) by simp
  qed
  from len rp at other show ?case by blast
qed

lemma list_nine_nth:
  assumes "length xs = 9"
  shows "xs = [xs ! 0, xs ! 1, xs ! 2, xs ! 3, xs ! 4, xs ! 5, xs ! 6, xs ! 7, xs ! 8]"
proof (rule nth_equalityI)
  show "length xs = length [xs ! 0, xs ! 1, xs ! 2, xs ! 3, xs ! 4, xs ! 5, xs ! 6, xs ! 7, xs ! 8]"
    using assms by simp
next
  fix i assume "i < length xs"
  then have "i \<in> {0, 1, 2, 3, 4, 5, 6, 7, 8}" using assms by auto
  then show "xs ! i = [xs ! 0, xs ! 1, xs ! 2, xs ! 3, xs ! 4, xs ! 5, xs ! 6, xs ! 7, xs ! 8] ! i"
    by auto
qed


section \<open>The worked example in partitioned mode\<close>

text \<open>
  Claim C7. Two threads, partitioned mode, \<open>base_offset = 0\<close>, \<open>max_key = 4\<close>: after
  \<^verbatim>\<open>InitBudget\<close> both buffers have two cells and the displacement is 2, so thread 0's
  cells are keys 0 and 1 and thread 1's cells are keys 2 and 3. Thread 0 budgets and
  pushes two values to key 0, thread 1 budgets and pushes one value to key 3; after
  the four phases the offset array is \<open>[0, 2, 2, 2, 3]\<close> (and the data array holds the
  three values in key order).
\<close>

theorem C7_partitioned_example:
  "map_option thread_rptr (InitBudget True 4 2 (ParallelGroupBuilder [] ([] :: 'v list) 0))
     = Some [[0, 0], [0, 0]]
   \<and> map_option thread_displacement
         (InitBudget True 4 2 (ParallelGroupBuilder [] ([] :: 'v list) 0)) = Some 2
   \<and> map_option (\<lambda>b. (map (\<lambda>k. offset_key True b k 0) [0, 1],
                       map (\<lambda>k. offset_key True b k 1) [2, 3]))
         (InitBudget True 4 2 (ParallelGroupBuilder [] ([] :: 'v list) 0))
       = Some ([0, 1], [0, 1])
   \<and> map_option (\<lambda>b. (rptr b, data b))
         (build True (dv :: 'v) [] [] 0 4 2 [(0, 0, 1), (0, 0, 1), (3, 1, 1)]
            [(0, 0, v1), (3, 1, v3), (0, 0, v2)])
       = Some ([0, 2, 2, 2, 3], [v1, v2, v3])"
  by (simp add: run_defs Let_def ev)

section \<open>InitBudget in shared mode with nothing left to build\<close>

text \<open>
  Claim C9. In shared mode, with at least one thread and \<open>max_key \<le> base_offset\<close>, the
  key-range size \<open>max_key - min base_offset max_key\<close> is 0, so \<^verbatim>\<open>InitBudget\<close> gives
  every thread an empty counting buffer. The \<open>min\<close> is what prevents the wrap-around:
  the plain 64-bit difference \<open>max_key - base_offset\<close> is \<open>2 ^ 64 + max_key - base_offset\<close>
  when \<open>max_key < base_offset\<close>.
\<close>

theorem C9_shared_budget_clamps:
  assumes "1 \<le> nthread" and "max_key \<le> base"
  shows "full_size False max_key base = 0
         \<and> (\<exists>b. InitBudget False max_key nthread (ParallelGroupBuilder p_rptr p_data base) = Some b
                \<and> length (thread_rptr b) = nthread
                \<and> (\<forall>t<nthread. thread_rptr b ! t = []))
         \<and> (max_key < base \<and> base < 2 ^ 64 \<longrightarrow> sz_sub max_key base = 2 ^ 64 + max_key - base)"
proof -
  have fs: "full_size False max_key base = 0"
    using assms(2) by (simp add: full_size_def min_absorb2 sz_sub_self)
  have n: "0 < nthread" using assms(1) by simp
  have "(replicate (nthread - 1) [] @ [[]]) ! t = ([] :: nat list)" if "t < nthread" for t
    using that by (cases "t < nthread - 1") (auto simp: nth_append)
  then have bufs: "\<exists>b. InitBudget False max_key nthread (ParallelGroupBuilder p_rptr p_data base) = Some b
                \<and> length (thread_rptr b) = nthread
                \<and> (\<forall>t<nthread. thread_rptr b ! t = [])"
    using n by (simp add: InitBudget_fresh[OF n] fs last_thread_size_def)
  have "sz_sub max_key base = 2 ^ 64 + max_key - base" if "max_key < base" "base < 2 ^ 64"
    using that by (simp add: sz_sub_def)
  with fs bufs show ?thesis by blast
qed

theorem C9_shared_budget_clamps_witness:
  "full_size False 3 5 = 0
   \<and> map_option thread_rptr (InitBudget False 3 2 (ParallelGroupBuilder [] ([] :: nat list) 5))
       = Some [[], []]
   \<and> sz_sub 3 5 = 18446744073709551614"
  using C9_shared_budget_clamps[of 2 3 5 "[]" "[] :: nat list"]
  by (simp add: run_defs Let_def ev)


section \<open>InitBudget in partitioned mode\<close>

text \<open>
  The displacement claimed for \<open>base_offset = 2\<close>, \<open>max_key = 4\<close> and two threads is
  \<open>(4 - 2) div 2 = 1\<close>; the code computes \<open>4 div 2 = 2\<close> and two buffers of two cells.
\<close>

theorem C6_counterexample:
  "map_option (\<lambda>b. (thread_displacement b, thread_rptr b))
     (InitBudget True 4 2 (ParallelGroupBuilder [] ([] :: nat list) 2)) = Some (2, [[0, 0], [0, 0]])
   \<and> map_option thread_displacement
       (InitBudget True 4 2 (ParallelGroupBuilder [] ([] :: nat list) 2)) \<noteq> Some ((4 - 2) div 2)"
  by (simp add: run_defs Let_def ev)

text \<open>
  Claim C6, amended. In partitioned mode \<^verbatim>\<open>max_key\<close> is the number of keys of this build
  (the batch size) and the base offset does not enter the sizing: with at least one
  thread, \<^verbatim>\<open>InitBudget\<close> on a new builder sets the displacement to
  \<open>max_key div thread_count\<close>, gives each of the first \<open>thread_count - 1\<close> threads a
  zero-filled buffer of that many cells and the last thread a zero-filled buffer of
  \<open>max_key - (thread_count - 1) * displacement\<close> cells; together the buffers have
  \<open>max_key\<close> cells.
\<close>

theorem C6_partitioned_budget:
  assumes "1 \<le> nthread" and "max_key < 2 ^ 64"
  shows "\<exists>b. InitBudget True max_key nthread (ParallelGroupBuilder p_rptr p_data base) = Some b
           \<and> thread_displacement b = max_key div nthread
           \<and> length (thread_rptr b) = nthread
           \<and> (\<forall>t<nthread - 1. thread_rptr b ! t = replicate (max_key div nthread) 0)
           \<and> thread_rptr b ! (nthread - 1)
               = replicate (max_key - (nthread - 1) * (max_key div nthread)) 0
           \<and> sum_list (map length (thread_rptr b)) = max_key"
proof -
  have n: "0 < nthread" using assms(1) by simp
  let ?d = "max_key div nthread"
  have le: "(nthread - 1) * ?d \<le> max_key"
  proof -
    have "(nthread - 1) * ?d \<le> nthread * ?d" by (simp add: mult_le_mono1)
    also have "\<dots> \<le> max_key" by simp
    finally show ?thesis .
  qed
  then have lts: "last_thread_size True max_key nthread ?d = max_key - (nthread - 1) * ?d"
    using assms(2) by (simp add: last_thread_size_def sz_mul_id sz_sub_id)
  show ?thesis
    using n le by (simp add: InitBudget_fresh[OF n] full_size_def lts nth_append sum_list_replicate)
qed

theorem C6_partitioned_budget_witness:
  "map_option (\<lambda>b. (thread_displacement b, thread_rptr b))
     (InitBudget True 7 3 (ParallelGroupBuilder [] ([] :: nat list) 2))
   = Some (2, [[0, 0], [0, 0], [0, 0, 0]])"
  using C6_partitioned_budget[of 3 7 "[]" "[] :: nat list" 2]
  by (simp add: run_defs Let_def ev)

section \<open>The length of the offset array\<close>

text \<open>
  Partitioned mode, one thread, an offset array \<open>[0, 0, 0]\<close> left by an earlier build
  of two keys, \<open>base_offset = 2\<close>, \<open>max_key = 3\<close>, no budget: \<^verbatim>\<open>InitStorage\<close> resizes the
  offset array to \<open>3 + 2 + 1 = 6\<close> entries, not to \<open>max_key + 1 = 4\<close>, nor to the
  \<open>3 + (3 - 2 + 1) = 5\<close> entries of the other reading of the claim.
\<close>

theorem C5_counterexample:
  "map_option (\<lambda>b. length (rptr b))
     (Option.bind (budget_phase True [0, 0, 0] ([] :: nat list) 2 3 1 []) (InitStorage True 0))
   = Some 6
   \<and> map_option (\<lambda>b. length (rptr b))
       (Option.bind (budget_phase True [0, 0, 0] ([] :: nat list) 2 3 1 []) (InitStorage True 0))
     \<noteq> Some (3 + 1)
   \<and> map_option (\<lambda>b. length (rptr b))
       (Option.bind (budget_phase True [0, 0, 0] ([] :: nat list) 2 3 1 []) (InitStorage True 0))
     \<noteq> Some (length [0, 0, 0 :: nat] + (3 - 2 + 1))"
  by (simp add: run_defs Let_def ev)

text \<open>
  Claim C5, amended. With at least one thread, sizes that fit 64 bits and every
  budgeted key valid for the build (in shared mode a key of \<open>[base_offset, max_key)\<close>, in
  partitioned mode a key of the calling thread's slice of
  \<open>[base_offset, base_offset + max_key)\<close>), \<^verbatim>\<open>InitStorage\<close> leaves an offset array of
  \<^item> \<open>max_key + 1\<close> entries in shared mode, when \<open>base_offset \<le> max_key\<close> and the array had
    at most \<open>max_key + 1\<close> entries before;
  \<^item> \<open>base_offset + max_key + 1\<close> entries in partitioned mode, where \<open>max_key\<close> is the
    number of keys of this build.
\<close>

theorem C5_offset_array_length:
  assumes n: "1 \<le> nthread" and fit: "base + max_key + 1 < 2 ^ 64"
    and valid: "\<forall>(k, t, n) \<in> set cs. valid_call rm base max_key nthread k t"
    and sh: "\<not> rm \<longrightarrow> base \<le> max_key \<and> length p_rptr \<le> max_key + 1"
  shows "\<exists>b1 b2. budget_phase rm p_rptr p_data base max_key nthread cs = Some b1
           \<and> InitStorage rm dv b1 = Some b2
           \<and> length (rptr b2) = (if rm then base + max_key + 1 else max_key + 1)"
proof -
  let ?b0 = "budget_start rm p_rptr p_data base max_key nthread"
  let ?b1 = "?b0\<lparr>thread_rptr := budgeted rm ?b0 cs\<rparr>"
  have n0: "0 < nthread" using n by simp
  have bp: "budget_phase rm p_rptr p_data base max_key nthread cs = Some ?b1"
    using fit by (intro budget_phase_closed[OF n0 _ valid]) simp
  show ?thesis
  proof (cases rm)
    case True
    have len: "length (concat (thread_rptr ?b1)) = max_key"
      using True n0 by (simp add: length_concat_budgeted buffers_start length_concat_init_bufs)
    have small: "length (concat (thread_rptr ?b1)) + base_row_offset ?b1 + 1 < 2 ^ 64"
      unfolding len using fit by (simp add: buffers_start)
    have "InitStorage True dv ?b1 = Some (the (InitStorage True dv ?b1))
          \<and> length (rptr (the (InitStorage True dv ?b1))) = base + max_key + 1"
      unfolding InitStorage_partitioned[OF small]
      using len by (simp add: length_rm_offs length_rm_rp1 buffers_start)
    with bp True show ?thesis by auto
  next
    case False
    let ?trs = "budgeted False (budget_start False p_rptr p_data base max_key nthread) cs"
    have uni: "\<forall>tr\<in>set ?trs. length tr = max_key - base"
      by (rule shared_bufs_uniform)
    have ne: "?trs \<noteq> []"
      using n0 by (simp add: budgeted_shape buffers_start init_bufs_shape flip: length_0_conv)
    have lens: "\<forall>tr\<in>set (thread_rptr ?b1). length tr + base_row_offset ?b1 + 1 < 2 ^ 64"
      using uni fit False by (auto simp: buffers_start)
    have ne': "thread_rptr ?b1 \<noteq> []" using ne False by simp
    have ln: "length (sh_rp1 ?b1) = max_key + 1"
      using False sh ne
      by (simp add: length_sh_rp1 buffers_start sh_rptr_len_uniform[OF uni])
    have "InitStorage False dv ?b1 = Some (the (InitStorage False dv ?b1))
          \<and> length (rptr (the (InitStorage False dv ?b1))) = max_key + 1"
      unfolding InitStorage_shared[OF lens ne']
      using ln by (simp add: length_sh_offs)
    with bp False show ?thesis by auto
  qed
qed

theorem C5_offset_array_length_witness:
  "(\<exists>b1 b2. budget_phase True [0, 0, 0] ([] :: nat list) 2 3 2 [(2, 0, 1), (4, 1, 2)] = Some b1
       \<and> InitStorage True (0 :: nat) b1 = Some b2 \<and> length (rptr b2) = 6)
   \<and> (\<exists>b1 b2. budget_phase False [0, 0, 0] ([] :: nat list) 2 5 2 [(2, 0, 1), (4, 1, 2)] = Some b1
       \<and> InitStorage False (0 :: nat) b1 = Some b2 \<and> length (rptr b2) = 6)"
proof -
  have v1: "\<forall>(k, t, n) \<in> set [(2, 0, 1), (4, 1, 2 :: nat)]. valid_call True 2 3 2 k t"
    by (simp add: valid_call_def owns_def)
  have v2: "\<forall>(k, t, n) \<in> set [(2, 0, 1), (4, 1, 2 :: nat)]. valid_call False 2 5 2 k t"
    by (simp add: valid_call_def)
  have f1: "(2::nat) + 3 + 1 < 2 ^ 64" and f2: "(2::nat) + 5 + 1 < 2 ^ 64" and n: "(1::nat) \<le> 2"
    by simp_all
  have s1: "\<not> True \<longrightarrow> (2::nat) \<le> 3 \<and> length [0, 0, 0 :: nat] \<le> 3 + 1" by simp
  have s2: "\<not> False \<longrightarrow> (2::nat) \<le> 5 \<and> length [0, 0, 0 :: nat] \<le> 5 + 1" by simp
  show ?thesis
    using C5_offset_array_length[OF n f1 v1 s1, of "[] :: nat list" 0]
      C5_offset_array_length[OF n f2 v2 s2, of "[] :: nat list" 0]
    by simp
qed

text \<open>
  Claim C10. Shared mode, at least one thread, buffer lengths that fit 64 bits.
  At row \<open>i\<close> the merge leaves the buffers and the running count unchanged for a thread
  whose buffer has fewer than \<open>i - base_offset + 1\<close> cells; and \<^verbatim>\<open>InitStorage\<close> computes
  the same offset array from the buffers as they are and from the buffers padded with
  zeros to the length of the longest one.
\<close>

theorem C10_short_buffers_count_zero:
  assumes lens: "\<forall>tr\<in>set (thread_rptr b). length tr + base_row_offset b + 1 < 2 ^ 64"
    and ne: "thread_rptr b \<noteq> []"
  shows "(\<forall>i tid count bk. tid < length (thread_rptr b) \<and> base_row_offset b \<le> i
            \<and> length (thread_rptr b ! tid) < i - base_row_offset b + 1
          \<longrightarrow> sh_thread_step (base_row_offset b) bk i tid (thread_rptr b, count)
               = (thread_rptr b, count))
       \<and> (\<exists>b1 b2. InitStorage False dv b = Some b1
            \<and> InitStorage False dv (b\<lparr>thread_rptr := zero_pad (thread_rptr b)\<rparr>) = Some b2
            \<and> rptr b2 = rptr b1)"
proof (intro conjI allI impI)
  fix i tid count bk
  assume a: "tid < length (thread_rptr b) \<and> base_row_offset b \<le> i
             \<and> length (thread_rptr b ! tid) < i - base_row_offset b + 1"
  then have "length (thread_rptr b ! tid) + base_row_offset b < 2 ^ 64"
    using lens by (auto dest!: nth_mem)
  moreover have "length (thread_rptr b ! tid) + base_row_offset b \<le> i"
    using a by linarith
  ultimately show "sh_thread_step (base_row_offset b) bk i tid (thread_rptr b, count)
                   = (thread_rptr b, count)"
    by (rule sh_thread_step_skip)
next
  let ?b' = "b\<lparr>thread_rptr := zero_pad (thread_rptr b)\<rparr>"
  obtain tr where tr: "tr \<in> set (thread_rptr b)" "longest (thread_rptr b) = length tr"
    using longest_attained[OF ne] by auto
  then have "longest (thread_rptr b) + base_row_offset b + 1 < 2 ^ 64"
    using lens by auto
  then have lens': "\<forall>tr\<in>set (thread_rptr ?b'). length tr + base_row_offset ?b' + 1 < 2 ^ 64"
    using zero_pad_uniform[of "thread_rptr b"] by simp
  have ne': "thread_rptr ?b' \<noteq> []"
    using ne by (simp add: zero_pad_def)
  show "\<exists>b1 b2. InitStorage False dv b = Some b1 \<and> InitStorage False dv ?b' = Some b2
          \<and> rptr b2 = rptr b1"
    unfolding InitStorage_shared[OF lens ne] InitStorage_shared[OF lens' ne']
    by (simp add: sh_rp1_zero_pad sh_rows_zero_pad sh_offs_zero_pad)
qed

theorem C10_short_buffers_count_zero_witness:
  "sh_thread_step 1 5 3 1 ([[1, 2, 3], [4]], 7) = ([[1, 2, 3], [4]], 7)
   \<and> zero_pad [[1, 2, 3], [4]] = [[1, 2, 3], [4, 0, 0]]
   \<and> map_option rptr (InitStorage False (0::nat)
         \<lparr>rptr = [0, 5], data = [], thread_rptr = [[1, 2, 3], [4]],
          base_row_offset = 1, thread_displacement = 0\<rparr>) = Some [0, 5, 10, 12, 15]
   \<and> map_option rptr (InitStorage False (0::nat)
         \<lparr>rptr = [0, 5], data = [], thread_rptr = [[1, 2, 3], [4, 0, 0]],
          base_row_offset = 1, thread_displacement = 0\<rparr>) = Some [0, 5, 10, 12, 15]"
proof -
  let ?b = "\<lparr>rptr = [0, 5], data = [] :: nat list, thread_rptr = [[1, 2, 3], [4]],
          base_row_offset = 1, thread_displacement = 0\<rparr>"
  have l: "\<forall>tr\<in>set (thread_rptr ?b). length tr + base_row_offset ?b + 1 < 2 ^ 64" by simp
  have n: "thread_rptr ?b \<noteq> []" by simp
  have z: "zero_pad [[1, 2, 3], [4]] = [[1, 2, 3], [4, 0, 0]]"
    by (simp add: zero_pad_def longest_def resize_def ev)
  have r: "map_option rptr (InitStorage False (0::nat) ?b) = Some [0, 5, 10, 12, 15]"
    by (simp add: run_defs Let_def ev)
  from C10_short_buffers_count_zero[OF l n, of 0]
  have "sh_thread_step 1 5 3 1 ([[1, 2, 3], [4]], 7) = ([[1, 2, 3], [4]], 7)"
    and "\<exists>b1 b2. InitStorage False 0 ?b = Some b1
            \<and> InitStorage False 0 (?b\<lparr>thread_rptr := zero_pad (thread_rptr ?b)\<rparr>) = Some b2
            \<and> rptr b2 = rptr b1"
    by simp_all
  with z r show ?thesis by auto
qed

section \<open>The offset array after InitStorage\<close>

text \<open>
  Claim C4. Let the caller's offset array be non-decreasing with at most
  \<open>base_offset + 1\<close> entries (empty on a fresh build, the \<open>base_offset + 1\<close> entries of
  the earlier builds on an incremental one), let there be at least one thread, and
  let the sizes and the new total fit 64 bits. Then \<^verbatim>\<open>InitStorage\<close>, in either mode,
  returns with a non-decreasing offset array whose entry at index \<open>base_offset\<close> is the
  total from before this build (the last entry of the old array, 0 for an empty
  one) and whose last entry is the new length of the data array, which is the old
  total plus the sum of all budgets.
\<close>

theorem C4_offset_array_invariant:
  assumes srt: "sorted (rptr b)" and len0: "length (rptr b) \<le> base_row_offset b + 1"
    and ne: "thread_rptr b \<noteq> []"
    and fit: "length (concat (thread_rptr b)) + base_row_offset b + 1 < 2 ^ 64"
    and bound: "rptr_fill_value (rptr b) + sum_list (concat (thread_rptr b)) < 2 ^ 64"
  shows "\<exists>b'. InitStorage rm dv b = Some b'
           \<and> sorted (rptr b')
           \<and> rptr b' ! base_row_offset b = rptr_fill_value (rptr b)
           \<and> last (rptr b') = length (data b')
           \<and> last (rptr b') = rptr_fill_value (rptr b) + sum_list (concat (thread_rptr b))"
proof -
  let ?base = "base_row_offset b" and ?fill = "rptr_fill_value (rptr b)"
  obtain b' where res: "InitStorage rm dv b = Some b'"
    using InitStorage_Some[OF ne len0 sizes_fitI[OF fit] bound] by blast
  note tot = InitStorage_total[OF ne len0 sizes_fitI[OF fit] bound res]
  have nth: "\<forall>idx<length (rptr b'). rptr b' ! idx =
                (if idx < length (rptr b) then rptr b ! idx
                 else ?fill + prefix_total rm (thread_rptr b) (idx - ?base))"
    using tot(6) by blast
  have "sorted (rptr b')"
    using sorted_offsets[OF srt len0 nth] prefix_total_mono by blast
  moreover have "rptr b' ! ?base = ?fill"
    using tot(6)[of ?base] tot(5) rptr_at_base[OF len0] by (simp add: prefix_total_0)
  moreover have "last (rptr b') = length (data b')"
    by (simp add: tot(1) tot(2) length_resize)
  ultimately show ?thesis
    using res tot(1) by blast
qed

theorem C4_offset_array_invariant_witness:
  "(\<exists>b'. InitStorage False (0::nat)
            \<lparr>rptr = [0, 5], data = [], thread_rptr = [[1, 2, 3], [4]],
             base_row_offset = 1, thread_displacement = 0\<rparr> = Some b'
         \<and> sorted (rptr b') \<and> rptr b' ! 1 = 5 \<and> last (rptr b') = length (data b')
         \<and> last (rptr b') = 15)
   \<and> (\<exists>b'. InitStorage True (0::nat)
            \<lparr>rptr = [0, 5], data = [], thread_rptr = [[1, 2, 3], [4]],
             base_row_offset = 1, thread_displacement = 3\<rparr> = Some b'
         \<and> sorted (rptr b') \<and> rptr b' ! 1 = 5 \<and> last (rptr b') = length (data b')
         \<and> last (rptr b') = 15)"
proof -
  let ?b = "\<lparr>rptr = [0, 5], data = [] :: nat list, thread_rptr = [[1, 2, 3], [4]],
             base_row_offset = 1, thread_displacement = 0\<rparr>"
  let ?c = "\<lparr>rptr = [0, 5], data = [] :: nat list, thread_rptr = [[1, 2, 3], [4]],
             base_row_offset = 1, thread_displacement = 3\<rparr>"
  have b: "sorted (rptr ?b)" "length (rptr ?b) \<le> base_row_offset ?b + 1" "thread_rptr ?b \<noteq> []"
    "length (concat (thread_rptr ?b)) + base_row_offset ?b + 1 < 2 ^ 64"
    "rptr_fill_value (rptr ?b) + sum_list (concat (thread_rptr ?b)) < 2 ^ 64"
    by (simp_all add: rptr_fill_value_def)
  have c: "sorted (rptr ?c)" "length (rptr ?c) \<le> base_row_offset ?c + 1" "thread_rptr ?c \<noteq> []"
    "length (concat (thread_rptr ?c)) + base_row_offset ?c + 1 < 2 ^ 64"
    "rptr_fill_value (rptr ?c) + sum_list (concat (thread_rptr ?c)) < 2 ^ 64"
    by (simp_all add: rptr_fill_value_def)
  show ?thesis
    using C4_offset_array_invariant[OF b, of False 0] C4_offset_array_invariant[OF c, of True 0]
    by (simp add: rptr_fill_value_def)
qed

section \<open>Disjoint write regions\<close>

text \<open>
  Claim C3. Let the budget phase be complete in builder \<open>b\<close>, with at least one thread,
  a caller's offset array of at most \<open>base_offset + 1\<close> entries, and sizes and totals
  that fit 64 bits. After \<^verbatim>\<open>InitStorage\<close>, for two different pairs (key, thread) that
  have a cell, the index ranges \<open>[cursor, cursor + budget)\<close> are disjoint, where the
  cursor is what \<^verbatim>\<open>InitStorage\<close> wrote into the pair's cell and the budget is what the
  cell held before. And every compliant push sequence runs to completion and writes
  every slot from the old total up to the new length of the data array exactly once:
  \<^item> the \<open>i\<close>-th \<^verbatim>\<open>Push\<close> returns and changes the data array at one index only, its slot,
    where it stores its value;
  \<^item> the slots of the pushes are pairwise different and are exactly the slots from the
    old total up to the new length;
  \<^item> so in the final data array, which has the length \<^verbatim>\<open>InitStorage\<close> gave it, the slot
    of the \<open>i\<close>-th push holds the value of the \<open>i\<close>-th push, and the entries below the
    old total are those left by \<^verbatim>\<open>InitStorage\<close>.
\<close>

theorem C3_disjoint_regions:
  assumes ne: "thread_rptr b \<noteq> []" and len0: "length (rptr b) \<le> base_row_offset b + 1"
    and fit: "length (concat (thread_rptr b)) + base_row_offset b + 1 < 2 ^ 64"
    and bound: "rptr_fill_value (rptr b) + sum_list (concat (thread_rptr b)) < 2 ^ 64"
  shows "\<exists>b'. InitStorage rm dv b = Some b'
           \<and> (\<forall>k1 t1 k2 t2.
                 k1 < 2 ^ 64 \<and> k2 < 2 ^ 64 \<and> has_cell rm b k1 t1 \<and> has_cell rm b k2 t2
                 \<and> (k1, t1) \<noteq> (k2, t2)
                 \<longrightarrow> {cell_value rm b' k1 t1 ..< cell_value rm b' k1 t1 + cell_value rm b k1 t1}
                     \<inter> {cell_value rm b' k2 t2 ..< cell_value rm b' k2 t2 + cell_value rm b k2 t2}
                     = {})
           \<and> (\<forall>ps. compliant rm b ps
                 \<longrightarrow> (\<exists>b''. pushes rm ps b' = Some b''
                        \<and> length (data b'') = length (data b')
                        \<and> (\<forall>i<length ps. data b'' ! (push_slots rm ps b' ! i)
                                             = snd (snd (ps ! i)))
                        \<and> (\<forall>p<rptr_fill_value (rptr b). data b'' ! p = data b' ! p))
                     \<and> (\<forall>i<length ps. \<exists>bi bj.
                            pushes rm (take i ps) b' = Some bi
                          \<and> Push rm (fst (ps ! i)) (snd (snd (ps ! i))) (fst (snd (ps ! i))) bi
                              = Some bj
                          \<and> push_slots rm ps b' ! i < length (data bi)
                          \<and> data bj = (data bi)[push_slots rm ps b' ! i := snd (snd (ps ! i))])
                     \<and> length (push_slots rm ps b') = length ps
                     \<and> distinct (push_slots rm ps b')
                     \<and> set (push_slots rm ps b') = {rptr_fill_value (rptr b) ..< length (data b')})"
proof -
  obtain b' where res: "InitStorage rm dv b = Some b'"
    using InitStorage_Some[OF ne len0 sizes_fitI[OF fit] bound] by blast
  note cur = InitStorage_cursor[OF ne len0 sizes_fitI[OF fit] bound res]
  note tot = InitStorage_total[OF ne len0 sizes_fitI[OF fit] bound res]
  note par = same_params[OF tot(3,4), of rm]
  have reg: "regions_ok (thread_rptr b') (thread_rptr b) (length (data b'))"
    by (rule InitStorage_regions[OF ne len0 sizes_fitI[OF fit] bound res])
  have disj: "{cell_value rm b' k1 t1 ..< cell_value rm b' k1 t1 + cell_value rm b k1 t1}
              \<inter> {cell_value rm b' k2 t2 ..< cell_value rm b' k2 t2 + cell_value rm b k2 t2} = {}"
    if k: "k1 < 2 ^ 64" "k2 < 2 ^ 64" and c1: "has_cell rm b k1 t1" and c2: "has_cell rm b k2 t2"
      and ne: "(k1, t1) \<noteq> (k2, t2)" for k1 t1 k2 t2
  proof -
    let ?j1 = "offset_key rm b k1 t1" and ?j2 = "offset_key rm b k2 t2"
    have cells: "(t1, ?j1) \<noteq> (t2, ?j2)"
      using ne offset_key_inj[OF _ k, of rm b t1] by auto
    have a: "t1 < length (thread_rptr b')" "?j1 < length (thread_rptr b' ! t1)"
            "t2 < length (thread_rptr b')" "?j2 < length (thread_rptr b' ! t2)"
      using c1 c2 by (simp_all add: has_cell_def cur)
    have "thread_rptr b' ! t1 ! ?j1 + thread_rptr b ! t1 ! ?j1 \<le> thread_rptr b' ! t2 ! ?j2
          \<or> thread_rptr b' ! t2 ! ?j2 + thread_rptr b ! t2 ! ?j2 \<le> thread_rptr b' ! t1 ! ?j1"
      using reg a cells unfolding regions_ok_def by blast
    then show ?thesis
      by (auto simp: cell_value_def par)
  qed
  have push: "(\<exists>b''. pushes rm ps b' = Some b''
                  \<and> length (data b'') = length (data b')
                  \<and> (\<forall>i<length ps. data b'' ! (push_slots rm ps b' ! i) = snd (snd (ps ! i)))
                  \<and> (\<forall>p<rptr_fill_value (rptr b). data b'' ! p = data b' ! p))
              \<and> (\<forall>i<length ps. \<exists>bi bj.
                      pushes rm (take i ps) b' = Some bi
                    \<and> Push rm (fst (ps ! i)) (snd (snd (ps ! i))) (fst (snd (ps ! i))) bi
                        = Some bj
                    \<and> push_slots rm ps b' ! i < length (data bi)
                    \<and> data bj = (data bi)[push_slots rm ps b' ! i := snd (snd (ps ! i))])
              \<and> length (push_slots rm ps b') = length ps
              \<and> distinct (push_slots rm ps b')
              \<and> set (push_slots rm ps b') = {rptr_fill_value (rptr b) ..< length (data b')}"
    if "compliant rm b ps" for ps
  proof -
    from pushes_after_init[OF ne len0 sizes_fitI[OF fit] bound res that] obtain b'' where
      run: "pushes rm ps b' = Some b''" and dis: "distinct (push_slots rm ps b')"
      and slots: "set (push_slots rm ps b') = {rptr_fill_value (rptr b) ..< length (data b')}"
      by blast
    note fin = pushes_data[OF run dis]
    have old: "data b'' ! p = data b' ! p" if "p < rptr_fill_value (rptr b)" for p
      using fin that slots by simp
    have steps: "\<exists>bi bj. pushes rm (take i ps) b' = Some bi
                    \<and> Push rm (fst (ps ! i)) (snd (snd (ps ! i))) (fst (snd (ps ! i))) bi
                        = Some bj
                    \<and> push_slots rm ps b' ! i < length (data bi)
                    \<and> data bj = (data bi)[push_slots rm ps b' ! i := snd (snd (ps ! i))]"
      if "i < length ps" for i
      using pushes_trace[OF run that] by blast
    from run fin old steps length_push_slots[OF run] dis slots show ?thesis by blast
  qed
  from res disj push show ?thesis by blast
qed

theorem C3_disjoint_regions_witness:
  "\<exists>b'. InitStorage False (0::nat)
           \<lparr>rptr = [0, 5], data = [7, 7, 7, 7, 7], thread_rptr = [[1, 2], [1]],
            base_row_offset = 1, thread_displacement = 0\<rparr> = Some b'
       \<and> {cell_value False b' 1 0 ..< cell_value False b' 1 0 + 1}
           \<inter> {cell_value False b' 1 1 ..< cell_value False b' 1 1 + 1} = {}
       \<and> push_slots False [(1, 0, 10), (2, 0, 20), (1, 1, 11), (2, 0, 21)] b' = [5, 7, 6, 8]
       \<and> (\<exists>b''. pushes False [(1, 0, 10), (2, 0, 20), (1, 1, 11), (2, 0, 21)] b' = Some b''
              \<and> data b'' = [7, 7, 7, 7, 7, 10, 11, 20, 21])
       \<and> (\<exists>b1 b2. pushes False [(1, 0, 10), (2, 0, 20)] b' = Some b1
              \<and> Push False 1 11 1 b1 = Some b2 \<and> 6 < length (data b1)
              \<and> data b2 = (data b1)[6 := 11])
       \<and> distinct (push_slots False [(1, 0, 10), (2, 0, 20), (1, 1, 11), (2, 0, 21)] b')
       \<and> set (push_slots False [(1, 0, 10), (2, 0, 20), (1, 1, 11), (2, 0, 21)] b')
           = {5 ..< length (data b')}"
proof -
  let ?b = "\<lparr>rptr = [0, 5], data = [7, 7, 7, 7, 7 :: nat], thread_rptr = [[1, 2], [1]],
            base_row_offset = 1, thread_displacement = 0\<rparr>"
  let ?ps = "[(1, 0, 10), (2, 0, 20), (1, 1, 11), (2, 0, 21 :: nat)] :: (nat \<times> nat \<times> nat) list"
  have h: "thread_rptr ?b \<noteq> []" "length (rptr ?b) \<le> base_row_offset ?b + 1"
    "length (concat (thread_rptr ?b)) + base_row_offset ?b + 1 < 2 ^ 64"
    "rptr_fill_value (rptr ?b) + sum_list (concat (thread_rptr ?b)) < 2 ^ 64"
    by (simp_all add: rptr_fill_value_def)
  have cells: "has_cell False ?b 1 0" "has_cell False ?b 1 1"
    by (simp_all add: has_cell_def offset_key_def sz_sub_def)
  have bud: "cell_value False ?b 1 0 = 1" "cell_value False ?b 1 1 = 1"
    by (simp_all add: cell_value_def offset_key_def sz_sub_def)
  have comp: "compliant False ?b ?ps"
    by (simp add: compliant_def in_cells_def cell_vals_def offset_key_def sz_sub_def All_less_Suc)
  from C3_disjoint_regions[OF h, of False 0] obtain b' where
    res: "InitStorage False 0 ?b = Some b'"
    and disj: "\<forall>k1 t1 k2 t2.
                 k1 < 2 ^ 64 \<and> k2 < 2 ^ 64 \<and> has_cell False ?b k1 t1 \<and> has_cell False ?b k2 t2
                 \<and> (k1, t1) \<noteq> (k2, t2)
                 \<longrightarrow> {cell_value False b' k1 t1 ..< cell_value False b' k1 t1 + cell_value False ?b k1 t1}
                     \<inter> {cell_value False b' k2 t2 ..< cell_value False b' k2 t2 + cell_value False ?b k2 t2}
                     = {}"
    and push: "\<forall>ps. compliant False ?b ps \<longrightarrow>
                 (\<exists>b''. pushes False ps b' = Some b''
                    \<and> length (data b'') = length (data b')
                    \<and> (\<forall>i<length ps. data b'' ! (push_slots False ps b' ! i) = snd (snd (ps ! i)))
                    \<and> (\<forall>p<rptr_fill_value (rptr ?b). data b'' ! p = data b' ! p))
                 \<and> (\<forall>i<length ps. \<exists>bi bj.
                        pushes False (take i ps) b' = Some bi
                      \<and> Push False (fst (ps ! i)) (snd (snd (ps ! i))) (fst (snd (ps ! i))) bi
                          = Some bj
                      \<and> push_slots False ps b' ! i < length (data bi)
                      \<and> data bj = (data bi)[push_slots False ps b' ! i := snd (snd (ps ! i))])
                 \<and> length (push_slots False ps b') = length ps
                 \<and> distinct (push_slots False ps b')
                 \<and> set (push_slots False ps b') = {rptr_fill_value (rptr ?b) ..< length (data b')}"
    by (elim exE conjE)
  have b': "b' = \<lparr>rptr = [0, 5, 7, 9], data = [7, 7, 7, 7, 7, 0, 0, 0, 0],
                  thread_rptr = [[5, 7], [6]], base_row_offset = 1, thread_displacement = 0\<rparr>"
    using res by (simp add: run_defs Let_def ev)
  have slots: "push_slots False ?ps b' = [5, 7, 6, 8]"
    unfolding b' by (simp add: run_defs Let_def ev)
  have d1: "{cell_value False b' 1 0 ..< cell_value False b' 1 0 + 1}
           \<inter> {cell_value False b' 1 1 ..< cell_value False b' 1 1 + 1} = {}"
    using disj[rule_format, of 1 1 0 1] cells unfolding bud by simp
  from push[rule_format, OF comp] obtain b'' where run: "pushes False ?ps b' = Some b''"
    and len: "length (data b'') = length (data b')"
    and at: "\<forall>i<length ?ps. data b'' ! (push_slots False ?ps b' ! i) = snd (snd (?ps ! i))"
    and old: "\<forall>p<rptr_fill_value (rptr ?b). data b'' ! p = data b' ! p"
    and steps: "\<forall>i<length ?ps. \<exists>bi bj.
                        pushes False (take i ?ps) b' = Some bi
                      \<and> Push False (fst (?ps ! i)) (snd (snd (?ps ! i))) (fst (snd (?ps ! i))) bi
                          = Some bj
                      \<and> push_slots False ?ps b' ! i < length (data bi)
                      \<and> data bj = (data bi)[push_slots False ?ps b' ! i := snd (snd (?ps ! i))]"
    and dis: "distinct (push_slots False ?ps b')"
    and cover: "set (push_slots False ?ps b') = {rptr_fill_value (rptr ?b) ..< length (data b')}"
    by (elim exE conjE)
  have l9: "length (data b'') = 9" using len unfolding b' by simp
  have e: "data b'' ! 5 = 10" "data b'' ! 7 = 20" "data b'' ! 6 = 11" "data b'' ! 8 = 21"
    using at[rule_format, of 0] at[rule_format, of 1] at[rule_format, of 2]
      at[rule_format, of 3] unfolding slots by simp_all
  have o: "data b'' ! 0 = 7" "data b'' ! 1 = 7" "data b'' ! 2 = 7" "data b'' ! 3 = 7"
    "data b'' ! 4 = 7"
    using old[rule_format, of 0] old[rule_format, of 1] old[rule_format, of 2]
      old[rule_format, of 3] old[rule_format, of 4] unfolding b'
    by (simp_all add: rptr_fill_value_def)
  have dat: "data b'' = [7, 7, 7, 7, 7, 10, 11, 20, 21]"
    using list_nine_nth[OF l9] unfolding e o .
  from steps[rule_format, of 2] have st: "\<exists>b1 b2. pushes False [(1, 0, 10), (2, 0, 20)] b' = Some b1
              \<and> Push False 1 11 1 b1 = Some b2 \<and> 6 < length (data b1)
              \<and> data b2 = (data b1)[6 := 11]"
    unfolding slots by (simp add: numeral_2_eq_2)
  have fin: "\<exists>b''. pushes False ?ps b' = Some b''
              \<and> data b'' = [7, 7, 7, 7, 7, 10, 11, 20, 21]"
    using run dat by blast
  have cov: "set (push_slots False ?ps b') = {5 ..< length (data b')}"
    using cover by (simp add: rptr_fill_value_def)
  show ?thesis
    by (intro exI[of _ b'] conjI res d1 slots fin st dis cov)
qed


section \<open>What a build leaves untouched\<close>





section \<open>Functional correctness of the protocol\<close>

text \<open>
  Claim C1. Take a build with at least one thread, sizes and totals that fit 64 bits
  and a caller's offset array of at most \<open>base_offset + 1\<close> entries. Let every budget
  call and every push call be valid (the thread id below the thread count, the key
  one of this build, in partitioned mode a key of the calling thread's slice) and
  let, for each pair (key, thread), the number of pushes be the sum of the budget
  increments. Then the four phases run to completion, and for every key \<open>k\<close> of the
  build the slice \<open>data[offset[k] : offset[k + 1]]\<close> is the group of \<open>k\<close>: in shared mode
  the values pushed for \<open>k\<close> by thread 0, then by thread 1, and so on, each thread's
  values in its push order; in partitioned mode the values pushed for \<open>k\<close> (by the one
  thread that owns it) in push order. The keys of the build are those of
  \<open>[base_offset, max_key)\<close> in shared mode; in partitioned mode they are those of
  \<open>[base_offset, base_offset + max_key)\<close>, which contains \<open>[base_offset, max_key)\<close>.
\<close>

theorem C1_groups:
  fixes ps :: "(nat \<times> nat \<times> 'v) list" and p_data :: "'v list"
  assumes n: "1 \<le> nthread" and fit: "base + max_key + 1 < 2 ^ 64"
    and len0: "length p_rptr \<le> base + 1"
    and vcs: "all_valid rm base max_key nthread cs"
    and vps: "all_valid rm base max_key nthread ps"
    and mb: "matches_budget cs ps"
    and bound: "rptr_fill_value p_rptr + length ps < 2 ^ 64"
  shows "\<exists>b3. build rm dv p_rptr p_data base max_key nthread cs ps = Some b3
           \<and> (\<forall>k. base \<le> k \<and> k < (if rm then base + max_key else max_key)
                 \<longrightarrow> k + 1 < length (rptr b3)
                     \<and> rptr b3 ! k \<le> rptr b3 ! (k + 1)
                     \<and> rptr b3 ! (k + 1) \<le> length (data b3)
                     \<and> take (rptr b3 ! (k + 1) - rptr b3 ! k) (drop (rptr b3 ! k) (data b3))
                         = group_of rm nthread ps k)"
proof -
  let ?fill = "rptr_fill_value p_rptr" and ?K = "rows rm base max_key"
  let ?G = "groups_total rm nthread ps base"
  from build_result[OF n fit len0 vcs vps mb bound, of dv p_data] obtain b3 where
    bld: "build rm dv p_rptr p_data base max_key nthread cs ps = Some b3"
    and lenr: "length (rptr b3) = base + ?K + 1"
    and at: "\<forall>r\<le>?K. rptr b3 ! (base + r) = ?fill + ?G r"
    and slices: "\<forall>r<?K. take (length (group_of rm nthread ps (base + r)))
                 (drop (?fill + ?G r) (data b3)) = group_of rm nthread ps (base + r)"
    and GK: "?G ?K = length ps"
    and lenD: "length (data b3) = ?fill + length ps"
    by blast
  have grp: "k + 1 < length (rptr b3) \<and> rptr b3 ! k \<le> rptr b3 ! (k + 1)
             \<and> rptr b3 ! (k + 1) \<le> length (data b3)
             \<and> take (rptr b3 ! (k + 1) - rptr b3 ! k) (drop (rptr b3 ! k) (data b3))
                 = group_of rm nthread ps k"
    if k: "base \<le> k" "k < (if rm then base + max_key else max_key)" for k
  proof -
    let ?r = "k - base"
    have r: "?r < ?K" using k by (auto simp: rows_def split: if_splits)
    have kk: "base + ?r = k" "base + Suc ?r = k + 1" using k by simp_all
    have a0: "rptr b3 ! k = ?fill + ?G ?r" using at r kk by (metis less_imp_le)
    have a1: "rptr b3 ! (k + 1) = ?fill + ?G (Suc ?r)" using at r kk by (metis Suc_leI)
    have GS: "?G (Suc ?r) = ?G ?r + length (group_of rm nthread ps k)"
      using kk by (simp add: groups_total_def)
    have "?G (Suc ?r) \<le> ?G ?K"
      unfolding groups_total_def using r by (intro sum_lessThan_mono) simp
    then have "rptr b3 ! (k + 1) \<le> length (data b3)"
      unfolding a1 lenD using GK by simp
    moreover have "take (rptr b3 ! (k + 1) - rptr b3 ! k) (drop (rptr b3 ! k) (data b3))
                    = group_of rm nthread ps k"
      unfolding a0 a1 GS using slices[rule_format, OF r] kk by simp
    moreover have "k + 1 < length (rptr b3)" using r k lenr by simp
    moreover have "rptr b3 ! k \<le> rptr b3 ! (k + 1)"
      unfolding a0 a1 GS by simp
    ultimately show ?thesis by blast
  qed
  from bld grp show ?thesis by blast
qed

theorem C1_groups_witness:
  "(\<exists>b3. build False (CHR ''z'') [] [] 0 2 2 [(0, 0, 1), (1, 0, 1), (0, 1, 1)]
           [(0, 1, CHR ''C''), (0, 0, CHR ''A''), (1, 0, CHR ''B'')] = Some b3
       \<and> take (rptr b3 ! 1 - rptr b3 ! 0) (drop (rptr b3 ! 0) (data b3)) = ''AC''
       \<and> take (rptr b3 ! 2 - rptr b3 ! 1) (drop (rptr b3 ! 1) (data b3)) = ''B'')
   \<and> (\<exists>b3. build True (0::nat) [] [] 0 4 2 [(0, 0, 2), (3, 1, 1)]
           [(0, 0, 10), (3, 1, 30), (0, 0, 11)] = Some b3
       \<and> take (rptr b3 ! 1 - rptr b3 ! 0) (drop (rptr b3 ! 0) (data b3)) = [10, 11]
       \<and> take (rptr b3 ! 4 - rptr b3 ! 3) (drop (rptr b3 ! 3) (data b3)) = [30])"
proof -
  let ?cs = "[(0, 0, 1), (1, 0, 1), (0, 1, 1)] :: (nat \<times> nat \<times> nat) list"
  let ?ps = "[(0, 1, CHR ''C''), (0, 0, CHR ''A''), (1, 0, CHR ''B'')]"
  let ?cs' = "[(0, 0, 2), (3, 1, 1)] :: (nat \<times> nat \<times> nat) list"
  let ?ps' = "[(0, 0, 10), (3, 1, 30), (0, 0, 11)] :: (nat \<times> nat \<times> nat) list"
  have n: "(1::nat) \<le> 2" and fit: "(0::nat) + 2 + 1 < 2 ^ 64" "(0::nat) + 4 + 1 < 2 ^ 64"
    and len0: "length ([] :: nat list) \<le> 0 + 1"
    and bound: "rptr_fill_value [] + length ?ps < 2 ^ 64" "rptr_fill_value [] + length ?ps' < 2 ^ 64"
    by (simp_all add: rptr_fill_value_def)
  have v: "all_valid False 0 2 2 ?cs" "all_valid False 0 2 2 ?ps"
    by (simp_all add: all_valid_def valid_call_def)
  have v': "all_valid True 0 4 2 ?cs'" "all_valid True 0 4 2 ?ps'"
    by (simp_all add: all_valid_def valid_call_def owns_def)
  have mb: "matches_budget ?cs ?ps" "matches_budget ?cs' ?ps'"
    by (auto simp: matches_budget_def)
  from C1_groups[OF n fit(1) len0 v mb(1) bound(1), of "CHR ''z''" "[]"] obtain b3 where
    b: "build False (CHR ''z'') [] [] 0 2 2 ?cs ?ps = Some b3"
    and g: "\<And>k. 0 \<le> k \<and> k < (if False then 0 + 2 else 2) \<Longrightarrow>
              take (rptr b3 ! (k + 1) - rptr b3 ! k) (drop (rptr b3 ! k) (data b3))
              = group_of False 2 ?ps k"
    by blast
  from C1_groups[OF n fit(2) len0 v' mb(2) bound(2), of 0 "[]"] obtain c3 where
    c: "build True 0 [] [] 0 4 2 ?cs' ?ps' = Some c3"
    and h: "\<And>k. 0 \<le> k \<and> k < (if True then 0 + 4 else 4) \<Longrightarrow>
              take (rptr c3 ! (k + 1) - rptr c3 ! k) (drop (rptr c3 ! k) (data c3))
              = group_of True 2 ?ps' k"
    by blast
  have "take (rptr b3 ! 1 - rptr b3 ! 0) (drop (rptr b3 ! 0) (data b3)) = ''AC''"
       "take (rptr b3 ! 2 - rptr b3 ! 1) (drop (rptr b3 ! 1) (data b3)) = ''B''"
    using g[of 0] g[of 1] by (simp_all add: group_of_def pushed_by_def ev numeral_2_eq_2)
  moreover have "take (rptr c3 ! 1 - rptr c3 ! 0) (drop (rptr c3 ! 0) (data c3)) = [10, 11]"
       "take (rptr c3 ! 4 - rptr c3 ! 3) (drop (rptr c3 ! 3) (data c3)) = [30]"
    using h[of 0] h[of 3] by (simp_all add: group_of_def)
  ultimately show ?thesis using b c by blast
qed

section \<open>Building in two calls\<close>

text \<open>
  Partitioned mode, one thread, the records \<open>(0, 10)\<close> and \<open>(1, 20)\<close>, split point
  \<open>m = 1\<close>, \<open>n = 2\<close>. The first build (\<open>base_offset = 0\<close>, \<open>max_key = 1\<close>) followed by
  the second build (\<open>base_offset = 1\<close>, \<open>max_key = 2\<close>) on the arrays of the first leaves
  the offset array \<open>[0, 1, 2, 2]\<close>: the second build counts \<open>max_key = 2\<close> keys from
  \<open>base_offset\<close> on. One build with \<open>base_offset = 0\<close>, \<open>max_key = 2\<close> over both records
  leaves \<open>[0, 1, 2]\<close>.
\<close>

theorem C2_counterexample:
  "map_option rptr
     (Option.bind (build True (0::nat) [] [] 0 1 1 [(0, 0, 1)] [(0, 0, 10)])
        (\<lambda>b1. build True 0 (rptr b1) (data b1) 1 2 1 [(1, 0, 1)] [(1, 0, 20)]))
   = Some [0, 1, 2, 2]
   \<and> map_option rptr
       (build True (0::nat) [] [] 0 2 1 [(0, 0, 1), (1, 0, 1)] [(0, 0, 10), (1, 0, 20)])
     = Some [0, 1, 2]
   \<and> map_option rptr
       (Option.bind (build True (0::nat) [] [] 0 1 1 [(0, 0, 1)] [(0, 0, 10)])
          (\<lambda>b1. build True 0 (rptr b1) (data b1) 1 2 1 [(1, 0, 1)] [(1, 0, 20)]))
     \<noteq> map_option rptr
         (build True (0::nat) [] [] 0 2 1 [(0, 0, 1), (1, 0, 1)] [(0, 0, 10), (1, 0, 20)])"
  by (simp add: run_defs Let_def ev)

text \<open>
  Claim C2, amended. Take at least one thread, a split point \<open>m \<le> n\<close>, sizes and
  totals that fit 64 bits, and three runs of the protocol whose budget and push calls
  are valid and whose pushes match the budgets: one build over all records with
  \<open>base_offset = 0\<close> and \<open>max_key = n\<close>; a first build over the records with keys below
  \<open>m\<close>, with \<open>base_offset = 0\<close> and \<open>max_key = m\<close>, on empty arrays; and a second build
  over the records with keys from \<open>m\<close> on, with \<open>base_offset = m\<close>, on the arrays left
  by the first, where \<open>max_key = n\<close> in shared mode and \<open>max_key = n - m\<close> (the number
  of keys of the second build) in partitioned mode. In shared mode the records keep
  their threads; in partitioned mode each build assigns a record to the thread that
  owns its key in that build, and the records (key, value) keep their order. Then all
  three builds run to completion, and the offset array and the data array after the
  second build are those of the single build.
\<close>

theorem C2_incremental_equals_single:
  fixes ps ps1 ps2 :: "(nat \<times> nat \<times> 'v) list"
  assumes n: "1 \<le> nthread" and mn: "m \<le> n" and fit: "m + n + 1 < 2 ^ 64"
    and bound: "length ps < 2 ^ 64"
    and vcs: "all_valid rm 0 n nthread cs" and vps: "all_valid rm 0 n nthread ps"
    and mb: "matches_budget cs ps"
    and vcs1: "all_valid rm 0 m nthread cs1" and vps1: "all_valid rm 0 m nthread ps1"
    and mb1: "matches_budget cs1 ps1"
    and vcs2: "all_valid rm m (if rm then n - m else n) nthread cs2"
    and vps2: "all_valid rm m (if rm then n - m else n) nthread ps2"
    and mb2: "matches_budget cs2 ps2"
    and split: "if rm then records ps1 = filter (\<lambda>(k, v). k < m) (records ps)
                          \<and> records ps2 = filter (\<lambda>(k, v). m \<le> k) (records ps)
                else ps1 = filter (\<lambda>(k, t, v). k < m) ps
                     \<and> ps2 = filter (\<lambda>(k, t, v). m \<le> k) ps"
  shows "\<exists>b b1 b2. build rm dv [] [] 0 n nthread cs ps = Some b
           \<and> build rm dv [] [] 0 m nthread cs1 ps1 = Some b1
           \<and> build rm dv (rptr b1) (data b1) m (if rm then n - m else n) nthread cs2 ps2
               = Some b2
           \<and> rptr b2 = rptr b \<and> data b2 = data b"
proof -
  let ?mk2 = "if rm then n - m else n"
  let ?g = "group_of rm nthread ps"
  have rows: "rows rm 0 n = n" "rows rm 0 m = m" "rows rm m ?mk2 = n - m"
    by (simp_all add: rows_def)
  have g1: "group_of rm nthread ps1 k = ?g k" if "k < m" for k
  proof (cases rm)
    case True
    then have "records ps1 = filter (\<lambda>(k, v). k < m) (records ps)" using split by simp
    from group_of_partitioned_filter[OF this, of k nthread nthread] that True
    show ?thesis by simp
  next
    case False
    then have "ps1 = filter (\<lambda>(k, t, v). k < m) ps" using split by simp
    with group_of_shared_filter[of "\<lambda>(k, t, v). k < m" k nthread ps] that False
    show ?thesis by simp
  qed
  have g2: "group_of rm nthread ps2 k = ?g k" if "m \<le> k" for k
  proof (cases rm)
    case True
    then have "records ps2 = filter (\<lambda>(k, v). m \<le> k) (records ps)" using split by simp
    from group_of_partitioned_filter[OF this, of k nthread nthread] that True
    show ?thesis by simp
  next
    case False
    then have "ps2 = filter (\<lambda>(k, t, v). m \<le> k) ps" using split by simp
    with group_of_shared_filter[of "\<lambda>(k, t, v). m \<le> k" k nthread ps] that False
    show ?thesis by simp
  qed
  have len: "length ps1 + length ps2 = length ps"
  proof (cases rm)
    case True
    have "length (records ps1) + length (records ps2) = length (records ps)"
      using split True length_split_filter[of fst m "records ps"]
      by (simp add: split_def)
    then show ?thesis by simp
  next
    case False
    then show ?thesis
      using split length_split_filter[of fst m ps] by (simp add: split_def)
  qed
  have f0: "rptr_fill_value [] = 0" by (simp add: rptr_fill_value_def)
  have fitn: "0 + n + 1 < (2::nat) ^ 64" and fitm: "0 + m + 1 < (2::nat) ^ 64"
    and fit2: "m + ?mk2 + 1 < (2::nat) ^ 64"
    using fit mn by simp_all
  have l0: "length ([] :: nat list) \<le> 0 + 1" by simp
  have bn: "rptr_fill_value [] + length ps < 2 ^ 64" using bound f0 by simp
  have bm: "rptr_fill_value [] + length ps1 < 2 ^ 64" using bound f0 len by simp
  have ld: "length ([] :: 'v list) = rptr_fill_value []" using f0 by simp
  from build_arrays[OF n fitn l0 vcs vps mb bn ld, of dv] obtain b where
    b: "build rm dv [] [] 0 n nthread cs ps = Some b"
    and rb: "rptr b = map (\<lambda>idx. groups_total rm nthread ps 0 idx) [0 ..< n + 1]"
    and db: "data b = concat (map ?g [0 ..< n])"
    unfolding rows f0 by auto
  from build_arrays[OF n fitm l0 vcs1 vps1 mb1 bm ld, of dv] obtain b1 where
    b1: "build rm dv [] [] 0 m nthread cs1 ps1 = Some b1"
    and rb1: "rptr b1 = map (\<lambda>idx. groups_total rm nthread ps1 0 idx) [0 ..< m + 1]"
    and db1: "data b1 = concat (map (group_of rm nthread ps1) [0 ..< m])"
    and fb1: "rptr_fill_value (rptr b1) = length ps1"
    and lb1: "length (data b1) = length ps1"
    and G1: "groups_total rm nthread ps1 0 m = length ps1"
    unfolding rows f0 by auto
  have G1eq: "groups_total rm nthread ps1 0 idx = groups_total rm nthread ps 0 idx"
    if "idx \<le> m" for idx
    unfolding groups_total_def using that by (intro sum.cong) (simp_all add: g1)
  have lr1: "length (rptr b1) = m + 1" using rb1 by simp
  then have l1: "length (rptr b1) \<le> m + 1" by simp
  have b2b: "rptr_fill_value (rptr b1) + length ps2 < 2 ^ 64" using fb1 len bound by simp
  have ld1: "length (data b1) = rptr_fill_value (rptr b1)" using fb1 lb1 by simp
  from build_arrays[OF n fit2 l1 vcs2 vps2 mb2 b2b ld1, of dv] obtain b2 where
    b2: "build rm dv (rptr b1) (data b1) m ?mk2 nthread cs2 ps2 = Some b2"
    and rb2: "rptr b2 = map (\<lambda>idx. if idx < length (rptr b1) then rptr b1 ! idx
                                 else rptr_fill_value (rptr b1)
                                      + groups_total rm nthread ps2 m (idx - m))
                        [0 ..< m + (n - m) + 1]"
    and db2: "data b2 = data b1 @ concat (map (\<lambda>r. group_of rm nthread ps2 (m + r))
                                        [0 ..< n - m])"
    unfolding rows by blast
  have mm: "m + (n - m) + 1 = n + 1" using mn by simp
  have "rptr b2 = rptr b"
    unfolding rb2 rb mm
  proof (rule map_cong[OF refl])
    fix idx assume "idx \<in> set [0 ..< n + 1]"
    show "(if idx < length (rptr b1) then rptr b1 ! idx
           else rptr_fill_value (rptr b1) + groups_total rm nthread ps2 m (idx - m))
          = groups_total rm nthread ps 0 idx"
    proof (cases "idx < m + 1")
      case True
      then have "rptr b1 ! idx = groups_total rm nthread ps1 0 idx"
        unfolding rb1 by (simp del: upt_Suc)
      with True lr1 G1eq[of idx] show ?thesis by simp
    next
      case False
      then have le: "m \<le> idx" by simp
      have "groups_total rm nthread ps2 m (idx - m)
            = (\<Sum>r<idx - m. length (?g (m + r)))"
        unfolding groups_total_def by (intro sum.cong) (simp_all add: g2)
      moreover have "rptr_fill_value (rptr b1) = groups_total rm nthread ps 0 m"
        using fb1 G1 G1eq[of m] by simp
      ultimately show ?thesis
        using False lr1 groups_total_split[OF le, of rm nthread ps] by simp
    qed
  qed
  moreover have "data b2 = data b"
  proof -
    have e1: "map (group_of rm nthread ps1) [0 ..< m] = map ?g [0 ..< m]"
      by (rule map_cong[OF refl]) (simp add: g1)
    have e2: "map (\<lambda>r. group_of rm nthread ps2 (m + r)) [0 ..< n - m]
              = map (\<lambda>r. ?g (m + r)) [0 ..< n - m]"
      by (rule map_cong[OF refl]) (simp add: g2)
    show ?thesis
      unfolding db2 db1 db e1 e2 by (rule concat_groups_split[OF mn, symmetric])
  qed
  ultimately show ?thesis using b b1 b2 by blast
qed

theorem C2_incremental_equals_single_witness:
  "(\<exists>b b1 b2. build False (CHR ''z'') [] [] 0 3 2 [(2, 1, 1), (0, 0, 1), (1, 0, 1), (0, 1, 1)]
                 [(2, 1, CHR ''c''), (0, 0, CHR ''a''), (1, 0, CHR ''b''), (0, 1, CHR ''d'')]
               = Some b
        \<and> build False (CHR ''z'') [] [] 0 1 2 [(0, 0, 1), (0, 1, 1)]
            [(0, 0, CHR ''a''), (0, 1, CHR ''d'')] = Some b1
        \<and> build False (CHR ''z'') (rptr b1) (data b1) 1 3 2 [(2, 1, 1), (1, 0, 1)]
            [(2, 1, CHR ''c''), (1, 0, CHR ''b'')] = Some b2
        \<and> rptr b2 = rptr b \<and> data b2 = data b)
   \<and> (\<exists>b b1 b2. build True (0::nat) [] [] 0 4 2 [(3, 1, 1), (0, 0, 2), (1, 0, 1)]
                 [(3, 1, 30), (0, 0, 10), (1, 0, 11), (0, 0, 12)] = Some b
        \<and> build True 0 [] [] 0 2 2 [(0, 0, 2), (1, 1, 1)]
            [(0, 0, 10), (1, 1, 11), (0, 0, 12)] = Some b1
        \<and> build True 0 (rptr b1) (data b1) 2 2 2 [(3, 1, 1)] [(3, 1, 30)] = Some b2
        \<and> rptr b2 = rptr b \<and> data b2 = data b)"
proof -
  let ?cs = "[(2, 1, 1), (0, 0, 1), (1, 0, 1), (0, 1, 1)] :: (nat \<times> nat \<times> nat) list"
  let ?ps = "[(2, 1, CHR ''c''), (0, 0, CHR ''a''), (1, 0, CHR ''b''), (0, 1, CHR ''d'')]
             :: (nat \<times> nat \<times> char) list"
  let ?cs1 = "[(0, 0, 1), (0, 1, 1)] :: (nat \<times> nat \<times> nat) list"
  let ?ps1 = "[(0, 0, CHR ''a''), (0, 1, CHR ''d'')] :: (nat \<times> nat \<times> char) list"
  let ?cs2 = "[(2, 1, 1), (1, 0, 1)] :: (nat \<times> nat \<times> nat) list"
  let ?ps2 = "[(2, 1, CHR ''c''), (1, 0, CHR ''b'')] :: (nat \<times> nat \<times> char) list"
  let ?ds = "[(3, 1, 1), (0, 0, 2), (1, 0, 1)] :: (nat \<times> nat \<times> nat) list"
  let ?qs = "[(3, 1, 30), (0, 0, 10), (1, 0, 11), (0, 0, 12)] :: (nat \<times> nat \<times> nat) list"
  let ?ds1 = "[(0, 0, 2), (1, 1, 1)] :: (nat \<times> nat \<times> nat) list"
  let ?qs1 = "[(0, 0, 10), (1, 1, 11), (0, 0, 12)] :: (nat \<times> nat \<times> nat) list"
  let ?ds2 = "[(3, 1, 1)] :: (nat \<times> nat \<times> nat) list"
  let ?qs2 = "[(3, 1, 30)] :: (nat \<times> nat \<times> nat) list"
  have n: "(1::nat) \<le> 2" and mn: "(1::nat) \<le> 3" "(2::nat) \<le> 4"
    and fit: "(1::nat) + 3 + 1 < 2 ^ 64" "(2::nat) + 4 + 1 < 2 ^ 64"
    and bound: "length ?ps < 2 ^ 64" "length ?qs < 2 ^ 64"
    by simp_all
  have v: "all_valid False 0 3 2 ?cs" "all_valid False 0 3 2 ?ps"
    and v1: "all_valid False 0 1 2 ?cs1" "all_valid False 0 1 2 ?ps1"
    and v2: "all_valid False 1 (if False then 3 - 1 else 3) 2 ?cs2"
            "all_valid False 1 (if False then 3 - 1 else 3) 2 ?ps2"
    by (simp_all add: all_valid_def valid_call_def)
  have w: "all_valid True 0 4 2 ?ds" "all_valid True 0 4 2 ?qs"
    and w1: "all_valid True 0 2 2 ?ds1" "all_valid True 0 2 2 ?qs1"
    and w2: "all_valid True 2 (if True then 4 - 2 else 4) 2 ?ds2"
            "all_valid True 2 (if True then 4 - 2 else 4) 2 ?qs2"
    by (simp_all add: all_valid_def valid_call_def owns_def)
  have mb: "matches_budget ?cs ?ps" "matches_budget ?cs1 ?ps1" "matches_budget ?cs2 ?ps2"
    "matches_budget ?ds ?qs" "matches_budget ?ds1 ?qs1" "matches_budget ?ds2 ?qs2"
    by (auto simp: matches_budget_def)
  have s: "if False then records ?ps1 = filter (\<lambda>(k, v). k < 1) (records ?ps)
                          \<and> records ?ps2 = filter (\<lambda>(k, v). 1 \<le> k) (records ?ps)
           else ?ps1 = filter (\<lambda>(k, t, v). k < 1) ?ps
                \<and> ?ps2 = filter (\<lambda>(k, t, v). 1 \<le> k) ?ps"
    by simp
  have s': "if True then records ?qs1 = filter (\<lambda>(k, v). k < 2) (records ?qs)
                          \<and> records ?qs2 = filter (\<lambda>(k, v). 2 \<le> k) (records ?qs)
           else ?qs1 = filter (\<lambda>(k, t, v). k < 2) ?qs
                \<and> ?qs2 = filter (\<lambda>(k, t, v). 2 \<le> k) ?qs"
    by (simp add: records_def)
  from C2_incremental_equals_single[OF n mn(1) fit(1) bound(1) v mb(1) v1 mb(2) v2 mb(3) s,
      of "CHR ''z''"]
  have A: "\<exists>b b1 b2. build False (CHR ''z'') [] [] 0 3 2 ?cs ?ps = Some b
        \<and> build False (CHR ''z'') [] [] 0 1 2 ?cs1 ?ps1 = Some b1
        \<and> build False (CHR ''z'') (rptr b1) (data b1) 1 3 2 ?cs2 ?ps2 = Some b2
        \<and> rptr b2 = rptr b \<and> data b2 = data b"
    by simp
  from C2_incremental_equals_single[OF n mn(2) fit(2) bound(2) w mb(4) w1 mb(5) w2 mb(6) s',
      of 0]
  have B: "\<exists>b b1 b2. build True 0 [] [] 0 4 2 ?ds ?qs = Some b
        \<and> build True 0 [] [] 0 2 2 ?ds1 ?qs1 = Some b1
        \<and> build True 0 (rptr b1) (data b1) 2 2 2 ?ds2 ?qs2 = Some b2
        \<and> rptr b2 = rptr b \<and> data b2 = data b"
    by simp
  from A B show ?thesis by blast
qed


end
